theory Spec2Isabelle
  imports Main "HOL-Library.Word" "HOL-Library.Multiset"
begin

section \<open>GoMerkle: a shallow embedding of package merkletree\<close>

text \<open>
  The development follows the Go sources: \<^verbatim>\<open>errors.go\<close>, the byte codec (\<^verbatim>\<open>ToBytes\<close>,
  \<^verbatim>\<open>ToHex\<close>, \<^verbatim>\<open>Concat\<close>, \<^verbatim>\<open>Compare\<close>), the hashing scheme of \<^verbatim>\<open>hashes.go\<close>, and the
  flat-array tree, the proofs and the multiproofs of \<^verbatim>\<open>core.go\<close>.

  Conventions.
  \<^item> A Go \<^verbatim>\<open>string\<close> is a byte sequence: \<^typ>\<open>string\<close>, whose characters are bytes.
  \<^item> A Go \<^verbatim>\<open>int\<close> is modelled by \<^typ>\<open>int\<close>. Slice lengths and the indices derived from
    them stay far below \<open>2^63\<close>, so \<open>+\<close>, \<open>-\<close> and \<open>*\<close> are not wrapped. The detour of
    \<^verbatim>\<open>ParentIndex\<close> through \<^verbatim>\<open>float64\<close> is modelled with its rounding, because it already
    loses precision at \<open>2^53\<close>.
  \<^item> An \<^verbatim>\<open>error\<close> result is a value of type \<open>error + 'a\<close> (\<open>Inl\<close> the error). An error
    wrapped by \<^verbatim>\<open>fmt.Errorf("...: %w", err)\<close> is represented by the error it wraps. A run-time
    panic of an out-of-range slice access is the value \<open>PanicIndexOutOfRange\<close>.
  \<^item> Keccak-256 (\<^verbatim>\<open>sha3.NewLegacyKeccak256\<close>) and \<^verbatim>\<open>sort.Slice\<close> on slices of arbitrary length
    belong to libraries outside the repository; they are parameters of the functions that
    call them.
\<close>

subsection \<open>errors.go\<close>

datatype error =
    ErrInvalidIndex
  | ErrValueNotFound
  | ErrInvalidProof
  | ErrEmptyTree
  | ErrInvalidNode
  | ErrNotLeafNode
  | ErrInvalidMultiProof
  | ErrRootHasNoParent
  | ErrRootHasNoSibling
  | ErrInvalidHexString
  | ErrUnsupportedType
  | ErrTreeIndexOutOfBounds
  | PanicIndexOutOfRange

text \<open>
  The first nine are the sentinels of \<^verbatim>\<open>errors.go\<close>. \<open>ErrInvalidHexString\<close> is the error
  "invalid hex string" of \<^verbatim>\<open>ToBytes\<close> and \<^verbatim>\<open>ToHex\<close>, \<open>ErrUnsupportedType\<close> the
  "unsupported type" errors of \<^verbatim>\<open>ToBytes\<close>, \<^verbatim>\<open>ToHex\<close> and \<^verbatim>\<open>abiEncodePacked\<close>,
  \<open>ErrTreeIndexOutOfBounds\<close> the "tree index out of bounds" error of \<^verbatim>\<open>PrepareMerkleTree\<close>.
\<close>

subsection \<open>Dynamic values\<close>

type_synonym byte = "8 word"

type_synonym HexString = string

text \<open>
  \<^verbatim>\<open>type BytesLike interface{}\<close>: any Go value. The constructors are the dynamic types the
  type switches of the package tell apart; \<open>VOther\<close> stands for every other type.
\<close>

datatype BytesLike =
    VBytes "byte list"
  | VHexString HexString
  | VString string
  | VInts "int list"
  | VUint8 "8 word"
  | VUint16 "16 word"
  | VUint32 "32 word"
  | VUint64 "64 word"
  | VInt8 "8 word"
  | VInt16 "16 word"
  | VInt32 "32 word"
  | VInt64 "64 word"
  | VOther

subsection \<open>encoding/hex and strings\<close>

definition hextable :: string where
  "hextable = ''0123456789abcdef''"

text \<open>\<^verbatim>\<open>hex.EncodeToString\<close>: two lower-case digits per byte, \<^verbatim>\<open>hextable[v>>4]\<close> and
  \<^verbatim>\<open>hextable[v&0x0f]\<close>.\<close>

definition hex_EncodeToString :: "byte list \<Rightarrow> string" where
  "hex_EncodeToString src =
     concat (map (\<lambda>v. [hextable ! (unat v div 16), hextable ! (unat v mod 16)]) src)"

text \<open>The digit value of a character, for the digits of either case.\<close>

definition fromHexChar :: "char \<Rightarrow> nat option" where
  "fromHexChar c = (let n = (of_char c :: nat) in
     if 48 \<le> n \<and> n \<le> 57 then Some (n - 48)
     else if 97 \<le> n \<and> n \<le> 102 then Some (n - 97 + 10)
     else if 65 \<le> n \<and> n \<le> 70 then Some (n - 65 + 10)
     else None)"

text \<open>\<^verbatim>\<open>hex.DecodeString\<close>: fails on a character that is no hex digit and on an odd length.\<close>

fun hex_DecodeString :: "string \<Rightarrow> error + byte list" where
  "hex_DecodeString [] = Inr []"
| "hex_DecodeString [p] = Inl ErrInvalidHexString"
| "hex_DecodeString (p # q # rest) =
     (case fromHexChar p of
        None \<Rightarrow> Inl ErrInvalidHexString
      | Some a \<Rightarrow>
       (case fromHexChar q of
          None \<Rightarrow> Inl ErrInvalidHexString
        | Some b \<Rightarrow>
         (case hex_DecodeString rest of
            Inl e \<Rightarrow> Inl e
          | Inr bs \<Rightarrow> Inr (word_of_nat (16 * a + b) # bs))))"

definition HasPrefix :: "string \<Rightarrow> string \<Rightarrow> bool" where
  "HasPrefix s pre = (take (length pre) s = pre)"

definition TrimPrefix :: "string \<Rightarrow> string \<Rightarrow> string" where
  "TrimPrefix s pre = (if HasPrefix s pre then drop (length pre) s else s)"

subsection \<open>The byte codec\<close>

text \<open>\<^verbatim>\<open>[]byte(v)\<close> for a string, and \<^verbatim>\<open>byte(num)\<close> for an \<^verbatim>\<open>int\<close> (the low eight bits).\<close>

definition bytes_of_string :: "string \<Rightarrow> byte list" where
  "bytes_of_string v = map of_char v"

text \<open>The \<^verbatim>\<open>string\<close> branch of \<^verbatim>\<open>ToBytes\<close>; the \<^verbatim>\<open>HexString\<close> branch calls it through
  \<^verbatim>\<open>ToBytes(string(v))\<close>.\<close>

definition ToBytes_text :: "string \<Rightarrow> error + byte list" where
  "ToBytes_text v =
     (if HasPrefix v ''0x'' then hex_DecodeString (drop 2 v) else Inr (bytes_of_string v))"

fun ToBytes :: "BytesLike \<Rightarrow> error + byte list" where
  "ToBytes (VBytes v) = Inr v"
| "ToBytes (VHexString v) = ToBytes_text v"
| "ToBytes (VString v) = ToBytes_text v"
| "ToBytes (VInts v) = Inr (map word_of_int v)"
| "ToBytes _ = Inl ErrUnsupportedType"

text \<open>The branch of \<^verbatim>\<open>ToHex\<close> shared by \<^verbatim>\<open>string\<close> and \<^verbatim>\<open>HexString\<close>: the text is
  validated by decoding it and returned with its digits as they were written.\<close>

definition ToHex_text :: "string \<Rightarrow> error + HexString" where
  "ToHex_text str =
     (case hex_DecodeString (TrimPrefix str ''0x'') of
        Inl e \<Rightarrow> Inl ErrInvalidHexString
      | Inr _ \<Rightarrow> Inr (''0x'' @ TrimPrefix str ''0x''))"

fun ToHex :: "BytesLike \<Rightarrow> error + HexString" where
  "ToHex (VString v) = ToHex_text v"
| "ToHex (VHexString v) = ToHex_text v"
| "ToHex (VBytes v) = Inr (''0x'' @ hex_EncodeToString v)"
| "ToHex (VInts v) =
     (case ToBytes (VInts v) of
        Inl e \<Rightarrow> Inl e
      | Inr bytes \<Rightarrow> Inr (''0x'' @ hex_EncodeToString bytes))"
| "ToHex _ = Inl ErrUnsupportedType"

fun Concat :: "BytesLike list \<Rightarrow> error + byte list" where
  "Concat [] = Inr []"
| "Concat (v # values) =
     (case ToBytes v of
        Inl e \<Rightarrow> Inl e
      | Inr bytes \<Rightarrow>
       (case Concat values of
          Inl e \<Rightarrow> Inl e
        | Inr result \<Rightarrow> Inr (bytes @ result)))"

text \<open>
  \<^verbatim>\<open>(*big.Int).SetString(s, 16)\<close> on the digits that \<^verbatim>\<open>ToHex\<close> has validated: the unsigned
  value of the digits. On the empty string \<^verbatim>\<open>SetString\<close> fails; \<^verbatim>\<open>Compare\<close> ignores the
  failure and goes on with the receiver, which \<^verbatim>\<open>new(big.Int)\<close> made zero.
\<close>

fun scanHex :: "int \<Rightarrow> string \<Rightarrow> int option" where
  "scanHex acc [] = Some acc"
| "scanHex acc (c # cs) =
     (case fromHexChar c of
        None \<Rightarrow> None
      | Some d \<Rightarrow> scanHex (16 * acc + int d) cs)"

definition bigInt_SetString16 :: "string \<Rightarrow> int option" where
  "bigInt_SetString16 s = (if s = [] then None else scanHex 0 s)"

definition bigInt_of_hex :: "string \<Rightarrow> int" where
  "bigInt_of_hex s = (case bigInt_SetString16 s of None \<Rightarrow> 0 | Some v \<Rightarrow> v)"

definition bigInt_Cmp :: "int \<Rightarrow> int \<Rightarrow> int" where
  "bigInt_Cmp x y = (if x < y then - 1 else if x = y then 0 else 1)"

definition Compare :: "BytesLike \<Rightarrow> BytesLike \<Rightarrow> error + int" where
  "Compare a b =
     (case ToHex a of
        Inl e \<Rightarrow> Inl e
      | Inr aHex \<Rightarrow>
       (case ToHex b of
          Inl e \<Rightarrow> Inl e
        | Inr bHex \<Rightarrow>
            Inr (bigInt_Cmp (bigInt_of_hex (drop 2 aHex)) (bigInt_of_hex (drop 2 bHex)))))"

subsection \<open>hashes.go\<close>

type_synonym NodeHash = "BytesLike \<Rightarrow> BytesLike \<Rightarrow> HexString"

text \<open>\<^verbatim>\<open>uintToBytes\<close>: the big-endian bytes of a fixed-width integer; \<^verbatim>\<open>nil\<close> otherwise.\<close>

fun uintToBytes :: "BytesLike \<Rightarrow> byte list" where
  "uintToBytes (VUint8 v) = [v]"
| "uintToBytes (VUint16 v) = [ucast (drop_bit 8 v), ucast v]"
| "uintToBytes (VUint32 v) =
     [ucast (drop_bit 24 v), ucast (drop_bit 16 v), ucast (drop_bit 8 v), ucast v]"
| "uintToBytes (VUint64 v) =
     [ucast (drop_bit 56 v), ucast (drop_bit 48 v), ucast (drop_bit 40 v), ucast (drop_bit 32 v),
      ucast (drop_bit 24 v), ucast (drop_bit 16 v), ucast (drop_bit 8 v), ucast v]"
| "uintToBytes (VInt8 v) = [v]"
| "uintToBytes (VInt16 v) = [ucast (drop_bit 8 v), ucast v]"
| "uintToBytes (VInt32 v) =
     [ucast (drop_bit 24 v), ucast (drop_bit 16 v), ucast (drop_bit 8 v), ucast v]"
| "uintToBytes (VInt64 v) =
     [ucast (drop_bit 56 v), ucast (drop_bit 48 v), ucast (drop_bit 40 v), ucast (drop_bit 32 v),
      ucast (drop_bit 24 v), ucast (drop_bit 16 v), ucast (drop_bit 8 v), ucast v]"
| "uintToBytes _ = []"

text \<open>One round of the type switch of \<^verbatim>\<open>abiEncodePacked\<close>: the bytes written to the
  buffer, or the "unsupported type" error of the \<^verbatim>\<open>default\<close> branch.\<close>

fun encodePackedArg :: "BytesLike \<Rightarrow> error + byte list" where
  "encodePackedArg (VString v) = Inr (bytes_of_string v)"
| "encodePackedArg (VBytes v) = Inr v"
| "encodePackedArg (VUint8 v) = Inr (uintToBytes (VUint8 v))"
| "encodePackedArg (VUint16 v) = Inr (uintToBytes (VUint16 v))"
| "encodePackedArg (VUint32 v) = Inr (uintToBytes (VUint32 v))"
| "encodePackedArg (VUint64 v) = Inr (uintToBytes (VUint64 v))"
| "encodePackedArg (VInt8 v) = Inr (uintToBytes (VInt8 v))"
| "encodePackedArg (VInt16 v) = Inr (uintToBytes (VInt16 v))"
| "encodePackedArg (VInt32 v) = Inr (uintToBytes (VInt32 v))"
| "encodePackedArg (VInt64 v) = Inr (uintToBytes (VInt64 v))"
| "encodePackedArg _ = Inl ErrUnsupportedType"

fun abiEncodePacked :: "BytesLike list \<Rightarrow> error + byte list" where
  "abiEncodePacked [] = Inr []"
| "abiEncodePacked (arg # args) =
     (case encodePackedArg arg of
        Inl e \<Rightarrow> Inl e
      | Inr bs \<Rightarrow>
       (case abiEncodePacked args of
          Inl e \<Rightarrow> Inl e
        | Inr buf \<Rightarrow> Inr (bs @ buf)))"

text \<open>In the functions below \<open>K\<close> is the Keccak-256 function of \<^verbatim>\<open>golang.org/x/crypto/sha3\<close>,
  from the bytes written to the hash to the digest \<^verbatim>\<open>Sum(nil)\<close> returns.\<close>

definition keccak256HashedData ::
  "(byte list \<Rightarrow> byte list) \<Rightarrow> BytesLike list \<Rightarrow> error + byte list" where
  "keccak256HashedData K args =
     (case abiEncodePacked args of
        Inl e \<Rightarrow> Inl e
      | Inr encodedData \<Rightarrow> Inr (K encodedData))"

definition StandardLeafHash :: "(byte list \<Rightarrow> byte list) \<Rightarrow> BytesLike \<Rightarrow> HexString" where
  "StandardLeafHash K v =
     (case keccak256HashedData K [v] of
        Inl e \<Rightarrow> ''''
      | Inr encodedPacked \<Rightarrow>
       (case ToHex (VBytes encodedPacked) of
          Inl e \<Rightarrow> ''''
        | Inr encodedPackedHex \<Rightarrow> encodedPackedHex))"

text \<open>The \<^verbatim>\<open>less\<close> closure handed to \<^verbatim>\<open>sort.Slice\<close>, here and in \<^verbatim>\<open>PrepareMerkleTree\<close>:
  an error of \<^verbatim>\<open>Compare\<close> counts as "not less".\<close>

definition compareLess :: "BytesLike \<Rightarrow> BytesLike \<Rightarrow> bool" where
  "compareLess x y = (case Compare x y of Inl e \<Rightarrow> False | Inr r \<Rightarrow> r < 0)"

text \<open>\<^verbatim>\<open>sort.Slice\<close> on the two-element slice \<^verbatim>\<open>{a, b}\<close>: the insertion sort every version
  of the library runs on it asks \<^verbatim>\<open>less(1, 0)\<close> once and swaps when it holds.\<close>

definition sortPair :: "BytesLike \<Rightarrow> BytesLike \<Rightarrow> BytesLike list" where
  "sortPair a b = (if compareLess b a then [b, a] else [a, b])"

definition StandardNodeHash :: "(byte list \<Rightarrow> byte list) \<Rightarrow> NodeHash" where
  "StandardNodeHash K a b =
     (case Concat (sortPair a b) of
        Inl e \<Rightarrow> ''''
      | Inr concatenated \<Rightarrow>
       (case keccak256HashedData K [VBytes concatenated] of
          Inl e \<Rightarrow> ''''
        | Inr hashed \<Rightarrow>
         (case ToHex (VBytes hashed) of
            Inl e \<Rightarrow> ''''
          | Inr hashedHex \<Rightarrow> hashedHex)))"

subsection \<open>core.go: index arithmetic\<close>

text \<open>
  \<^verbatim>\<open>float64\<close> has 53 bits of precision. \<open>float64_round x\<close> is the \<^verbatim>\<open>float64\<close> nearest to the
  integer \<open>x\<close>, ties going to the even significand: the value of the conversion
  \<^verbatim>\<open>float64(i)\<close>, and of a sum or difference whose exact value is \<open>x\<close>. \<open>excess_bits a\<close> is the
  number of low bits of \<open>a\<close> that do not fit.
\<close>

function excess_bits :: "int \<Rightarrow> nat" where
  "excess_bits a = (if a < 2 ^ 53 then 0 else Suc (excess_bits (a div 2)))"
  by pat_completeness auto
termination
  by (relation "measure nat") auto

definition float64_round :: "int \<Rightarrow> int" where
  "float64_round x =
     (let a = \<bar>x\<bar>;
          k = excess_bits a;
          q = a div 2 ^ k;
          r = a mod 2 ^ k;
          q' = (if 2 * r > 2 ^ k \<or> (2 * r = 2 ^ k \<and> odd q) then q + 1 else q)
      in sgn x * (q' * 2 ^ k))"

text \<open>
  \<^verbatim>\<open>int(math.Floor((float64(i) - 1) / 2))\<close>: the conversion rounds, the subtraction
  rounds, halving is exact, and the floor of half an integer \<open>m\<close> is \<open>m div 2\<close>.
\<close>

definition ParentIndex :: "int \<Rightarrow> int" where
  "ParentIndex i = (if i > 0 then float64_round (float64_round i - 1) div 2 else 0)"

text \<open>\<^verbatim>\<open>i - int(math.Pow(-1, float64(i%2)))\<close>: the exponent is 0 or 1, the power exact.\<close>

definition SiblingIndex :: "int \<Rightarrow> int" where
  "SiblingIndex i = (if i > 0 then i - (- 1) ^ nat (i mod 2) else 0)"

definition LeftChildIndex :: "int \<Rightarrow> int" where
  "LeftChildIndex i = 2 * i + 1"

definition RightChildIndex :: "int \<Rightarrow> int" where
  "RightChildIndex i = 2 * i + 2"

text \<open>The rounding is exact up to \<open>2^53\<close>, and the parent of a positive index is a smaller
  index that is not negative; the loops of \<^verbatim>\<open>GetProof\<close> and \<^verbatim>\<open>GetMultiProof\<close> end on that.\<close>

declare excess_bits.simps [simp del]

lemma excess_bits_small: "a < 2 ^ 53 \<Longrightarrow> excess_bits a = 0"
  by (subst excess_bits.simps) simp

lemma excess_bits_large: "2 ^ 53 \<le> a \<Longrightarrow> 2 ^ 52 * 2 ^ excess_bits a \<le> a \<and> 0 < excess_bits a"
proof (induction a rule: excess_bits.induct)
  case (1 a)
  show ?case
  proof (cases "a div 2 < 2 ^ 53")
    case True
    then have "excess_bits (a div 2) = 0" by (rule excess_bits_small)
    with 1(2) have "excess_bits a = 1" by (subst excess_bits.simps) simp
    with 1(2) show ?thesis by simp
  next
    case False
    then have h: "2 ^ 53 \<le> a div 2" by simp
    from 1(2) have na: "\<not> a < 2 ^ 53" by simp
    from 1(1)[OF na h] have ih: "2 ^ 52 * 2 ^ excess_bits (a div 2) \<le> a div 2" by simp
    from 1(2) have e: "excess_bits a = Suc (excess_bits (a div 2))" by (subst excess_bits.simps) simp
    have "2 * (a div 2) \<le> a" by simp
    with ih e show ?thesis by simp
  qed
qed

lemma float64_round_exact: "\<bar>x\<bar> \<le> 2 ^ 53 \<Longrightarrow> float64_round x = x"
proof (cases "\<bar>x\<bar> < 2 ^ 53")
  case True
  then show ?thesis by (simp add: float64_round_def excess_bits_small Let_def mult_sgn_abs)
next
  case False
  assume "\<bar>x\<bar> \<le> 2 ^ 53"
  with False have a: "\<bar>x\<bar> = 2 ^ 53" by simp
  have "excess_bits (2 ^ 53) = 1"
    by (subst excess_bits.simps, simp, subst excess_bits.simps, simp)
  with a show ?thesis
    by (cases "x < 0") (auto simp add: float64_round_def Let_def abs_if split: if_splits)
qed

lemma float64_round_bounds:
  assumes "0 < x"
  shows "0 < float64_round x \<and> 4 * float64_round x \<le> 5 * x"
proof (cases "x < 2 ^ 53")
  case True
  with assms have "float64_round x = x" by (intro float64_round_exact) simp
  with assms show ?thesis by simp
next
  case False
  then have big: "2 ^ 53 \<le> x" by simp
  define k where "k = excess_bits x"
  define E :: int where "E = 2 ^ k"
  define q where "q = x div E"
  define r where "r = x mod E"
  from excess_bits_large[OF big] have lo: "2 ^ 52 * E \<le> x" and kpos: "0 < k"
    by (simp_all add: k_def E_def)
  have Epos: "0 < E" by (simp add: E_def)
  have lo4: "4 * E \<le> x"
  proof -
    have "4 * E \<le> 2 ^ 52 * E" using Epos by simp
    with lo show ?thesis by linarith
  qed
  have xqr0: "x = q * E + r" by (simp add: q_def r_def)
  have r0: "0 \<le> r" and rE: "r < E" using Epos by (simp_all add: r_def)
  have qpos: "0 < q"
  proof -
    have "E \<le> 4 * E" using Epos by simp
    with lo4 have "E \<le> x" by linarith
    then show ?thesis using Epos by (simp add: q_def pos_imp_zdiv_pos_iff)
  qed
  have fr: "float64_round x = (if 2 * r > E \<or> (2 * r = E \<and> odd q) then q + 1 else q) * E"
    using assms by (simp add: float64_round_def Let_def k_def E_def q_def r_def)
  define P where "P = q * E"
  have qE: "0 < P" using qpos Epos by (simp add: P_def)
  have xqr: "x = P + r" using xqr0 by (simp add: P_def)
  show ?thesis
  proof (cases "2 * r > E \<or> (2 * r = E \<and> odd q)")
    case True
    then have f: "float64_round x = P + E" using fr by (simp add: algebra_simps P_def)
    have "E \<le> 2 * r" using True by auto
    then show ?thesis using f xqr r0 rE lo4 qE Epos by linarith
  next
    case False
    then have f: "float64_round x = P" using fr by (simp only: P_def if_False)
    show ?thesis using f xqr r0 qE by linarith
  qed
qed

lemma ParentIndex_bounds: "0 < i \<Longrightarrow> 0 \<le> ParentIndex i \<and> ParentIndex i < i"
proof -
  assume i: "0 < i"
  define y where "y = float64_round i"
  from float64_round_bounds[OF i] have y: "0 < y" "4 * y \<le> 5 * i" by (simp_all add: y_def)
  define z where "z = float64_round (y - 1)"
  have zz: "0 \<le> z \<and> 4 * z \<le> 5 * (y - 1)"
  proof (cases "y = 1")
    case True
    then show ?thesis by (simp add: z_def float64_round_exact)
  next
    case False
    with y have "0 < y - 1" by simp
    from float64_round_bounds[OF this] show ?thesis by (simp add: z_def)
  qed
  from zz have z: "0 \<le> z" "4 * z \<le> 5 * y - 5" by simp_all
  have "ParentIndex i = z div 2" using i by (simp add: ParentIndex_def z_def y_def)
  moreover have "0 \<le> z div 2" using z(1) by simp
  moreover have "z div 2 < i"
  proof -
    from z y i have "z < 2 * i" by linarith
    then show ?thesis by linarith
  qed
  ultimately show ?thesis by simp
qed

lemma ParentIndex_exact: "0 < i \<Longrightarrow> i \<le> 2 ^ 53 \<Longrightarrow> ParentIndex i = (i - 1) div 2"
  by (simp add: ParentIndex_def float64_round_exact)

subsection \<open>core.go: nodes and the tree builder\<close>

record MultiProof =
  Leaves :: "HexString list"
  Proof :: "HexString list"
  ProofFlags :: "bool list"

definition IsTreeNode :: "BytesLike list \<Rightarrow> int \<Rightarrow> bool" where
  "IsTreeNode tree i = (i \<ge> 0 \<and> i < int (length tree))"

definition IsInternalNode :: "BytesLike list \<Rightarrow> int \<Rightarrow> bool" where
  "IsInternalNode tree i = IsTreeNode tree (LeftChildIndex i)"

definition IsLeafNode :: "BytesLike list \<Rightarrow> int \<Rightarrow> bool" where
  "IsLeafNode tree i = (IsTreeNode tree i \<and> \<not> IsInternalNode tree i)"

definition CheckLeafNode :: "BytesLike list \<Rightarrow> int \<Rightarrow> error option" where
  "CheckLeafNode tree i = (if \<not> IsLeafNode tree i then Some ErrNotLeafNode else None)"

definition IsValidMerkleNode :: "BytesLike \<Rightarrow> bool" where
  "IsValidMerkleNode node =
     (case ToBytes node of Inl e \<Rightarrow> False | Inr bytes \<Rightarrow> length bytes = 32)"

definition CheckValidMerkleNode :: "BytesLike \<Rightarrow> error option" where
  "CheckValidMerkleNode node = (if \<not> IsValidMerkleNode node then Some ErrInvalidNode else None)"

text \<open>The slice access \<^verbatim>\<open>xs[i]\<close> with its run-time bounds check.\<close>

definition elemAt :: "'a list \<Rightarrow> int \<Rightarrow> error + 'a" where
  "elemAt xs i =
     (if 0 \<le> i \<and> i < int (length xs) then Inr (xs ! nat i) else Inl PanicIndexOutOfRange)"

text \<open>The first loop of \<^verbatim>\<open>MakeMerkleTree\<close>: every hash through \<^verbatim>\<open>ToHex\<close>, stopping at the
  first error.\<close>

fun leavesToHex :: "BytesLike list \<Rightarrow> error + HexString list" where
  "leavesToHex [] = Inr []"
| "leavesToHex (h # hashes) =
     (case ToHex h of
        Inl e \<Rightarrow> Inl e
      | Inr leaf \<Rightarrow>
       (case leavesToHex hashes of
          Inl e \<Rightarrow> Inl e
        | Inr leaves \<Rightarrow> Inr (leaf # leaves)))"

text \<open>The second loop, \<^verbatim>\<open>for i := len(tree)-len(leaves)-1; i >= 0; i--\<close>: the counter of
  \<open>fillInternal\<close> is \<open>i + 1\<close>.\<close>

fun fillInternal :: "NodeHash \<Rightarrow> HexString list \<Rightarrow> nat \<Rightarrow> error + HexString list" where
  "fillInternal nodeHash tree 0 = Inr tree"
| "fillInternal nodeHash tree (Suc i) =
     (case elemAt tree (LeftChildIndex (int i)) of
        Inl e \<Rightarrow> Inl e
      | Inr leftChild \<Rightarrow>
       (case elemAt tree (RightChildIndex (int i)) of
          Inl e \<Rightarrow> Inl e
        | Inr rightChild \<Rightarrow>
            fillInternal nodeHash
              (tree[i := nodeHash (VHexString leftChild) (VHexString rightChild)]) i))"

definition MakeMerkleTree :: "BytesLike list \<Rightarrow> NodeHash \<Rightarrow> error + HexString list" where
  "MakeMerkleTree hashes nodeHash =
     (if length hashes = 0 then Inl ErrEmptyTree
      else
       (case leavesToHex hashes of
          Inl e \<Rightarrow> Inl e
        | Inr leaves \<Rightarrow>
           (let tree0 = replicate (2 * length leaves - 1) [];
                tree = take (length tree0 - length leaves) tree0 @ leaves
            in fillInternal nodeHash tree (length tree - length leaves))))"

subsection \<open>core.go: single proofs\<close>

function proofLoop :: "BytesLike list \<Rightarrow> int \<Rightarrow> HexString list \<Rightarrow> error + HexString list" where
  "proofLoop tree index pf =
     (if index > 0 then
        (case elemAt tree (SiblingIndex index) of
           Inl e \<Rightarrow> Inl e
         | Inr node \<Rightarrow>
          (case ToHex node of
             Inl e \<Rightarrow> Inl e
           | Inr val \<Rightarrow> proofLoop tree (ParentIndex index) (pf @ [val])))
      else Inr pf)"
  by pat_completeness auto
termination
  by (relation "measure (\<lambda>(tree, index, pf). nat index)") (auto simp: ParentIndex_bounds)

declare proofLoop.simps [simp del]

definition GetProof :: "BytesLike list \<Rightarrow> int \<Rightarrow> error + HexString list" where
  "GetProof tree index =
     (case CheckLeafNode tree index of
        Some err \<Rightarrow> Inl err
      | None \<Rightarrow> proofLoop tree index [])"

text \<open>The two loops of \<^verbatim>\<open>ProcessProof\<close>: the validation of the proof nodes, and the fold.\<close>

fun checkProofNodes :: "BytesLike list \<Rightarrow> error option" where
  "checkProofNodes [] = None"
| "checkProofNodes (node # rest) =
     (case CheckValidMerkleNode node of
        Some err \<Rightarrow> Some err
      | None \<Rightarrow> checkProofNodes rest)"

fun foldProof :: "NodeHash \<Rightarrow> HexString \<Rightarrow> BytesLike list \<Rightarrow> error + HexString" where
  "foldProof nodeHash result [] = Inr result"
| "foldProof nodeHash result (sibling # rest) =
     (case ToHex sibling of
        Inl e \<Rightarrow> Inl e
      | Inr siblingHex \<Rightarrow>
          foldProof nodeHash (nodeHash (VHexString result) (VHexString siblingHex)) rest)"

definition ProcessProof :: "BytesLike \<Rightarrow> BytesLike list \<Rightarrow> NodeHash \<Rightarrow> error + HexString" where
  "ProcessProof leaf pf nodeHash =
     (case CheckValidMerkleNode leaf of
        Some err \<Rightarrow> Inl err
      | None \<Rightarrow>
       (case checkProofNodes pf of
          Some err \<Rightarrow> Inl err
        | None \<Rightarrow>
         (case ToHex leaf of
            Inl e \<Rightarrow> Inl e
          | Inr result \<Rightarrow>
           (case foldProof nodeHash result pf of
              Inl e \<Rightarrow> Inl e
            | Inr result' \<Rightarrow> ToHex (VHexString result')))))"

subsection \<open>core.go: multiproofs\<close>

text \<open>The loop of \<^verbatim>\<open>GetMultiProof\<close>, on the queue \<^verbatim>\<open>stack\<close>, the proof and the flags collected
  so far; it returns the three when the queue is empty or its front is not positive. Each
  round replaces the front by its parent, which is smaller: the loop ends.\<close>

lemma sum_parent_less:
  "0 < j \<Longrightarrow> nat (ParentIndex j) + 1 < nat j + 1"
  using ParentIndex_bounds[of j] by simp

function multiProofLoop ::
  "BytesLike list \<Rightarrow> int list \<Rightarrow> HexString list \<Rightarrow> bool list
     \<Rightarrow> error + (int list \<times> HexString list \<times> bool list)" where
  "multiProofLoop tree [] pf proofFlags = Inr ([], pf, proofFlags)"
| "multiProofLoop tree (j # stack) pf proofFlags =
     (if j > 0 then
        (if length stack > 0 \<and> SiblingIndex j = hd stack then
           multiProofLoop tree (tl stack @ [ParentIndex j]) pf (proofFlags @ [True])
         else
          (case elemAt tree (SiblingIndex j) of
             Inl e \<Rightarrow> Inl e
           | Inr node \<Rightarrow>
            (case ToHex node of
               Inl e \<Rightarrow> Inl e
             | Inr proofVal \<Rightarrow>
                 multiProofLoop tree (stack @ [ParentIndex j]) (pf @ [proofVal])
                   (proofFlags @ [False]))))
      else Inr (j # stack, pf, proofFlags))"
  by pat_completeness auto
termination
proof (relation "measure (\<lambda>(tree, stack, pf, proofFlags). sum_list (map (\<lambda>x. nat x + 1) stack))",
    goal_cases)
  case 1
  then show ?case by simp
next
  case (2 tree j stack pf proofFlags)
  then have "sum_list (map (\<lambda>x. nat x + 1) (tl stack)) \<le> sum_list (map (\<lambda>x. nat x + 1) stack)"
    by (cases stack) simp_all
  with 2 sum_parent_less[of j] show ?case by simp
next
  case (3 tree j stack pf proofFlags x2 x2a)
  with sum_parent_less[of j] show ?case by simp
qed

declare multiProofLoop.simps [simp del]

text \<open>The last loop of \<^verbatim>\<open>GetMultiProof\<close>: the hex form of the node at every requested
  index.\<close>

fun leavesOf :: "BytesLike list \<Rightarrow> int list \<Rightarrow> error + HexString list" where
  "leavesOf tree [] = Inr []"
| "leavesOf tree (idx # indices) =
     (case elemAt tree idx of
        Inl e \<Rightarrow> Inl e
      | Inr node \<Rightarrow>
       (case ToHex node of
          Inl e \<Rightarrow> Inl e
        | Inr leafHex \<Rightarrow>
         (case leavesOf tree indices of
            Inl e \<Rightarrow> Inl e
          | Inr leavesHex \<Rightarrow> Inr (leafHex # leavesHex))))"

definition GetMultiProof :: "BytesLike list \<Rightarrow> int list \<Rightarrow> error + MultiProof" where
  "GetMultiProof tree indices =
     (if length indices = 0 then Inl ErrEmptyTree
      else
       (case multiProofLoop tree indices [] [] of
          Inl e \<Rightarrow> Inl e
        | Inr (stack, pf, proofFlags) \<Rightarrow>
         (case leavesOf tree indices of
            Inl e \<Rightarrow> Inl e
          | Inr leavesHex \<Rightarrow>
              Inr \<lparr>Leaves = leavesHex, Proof = pf, ProofFlags = proofFlags\<rparr>)))"



subsection \<open>core.go: building a tree from values\<close>

text \<open>
  \<^verbatim>\<open>PrepareMerkleTree\<close> is generic in the type of the values. The two anonymous structs are
  the records \<open>hashedValue\<close> and \<open>indexedValue\<close> (whose field \<^verbatim>\<open>Value\<close> is \<open>IValue\<close>). The
  parameters that the Go function does not have: \<open>K\<close> is Keccak-256, for the default
  \<^verbatim>\<open>StandardNodeHash\<close> of a nil \<^verbatim>\<open>nodeHash\<close>; \<open>sort_Slice\<close> is \<^verbatim>\<open>sort.Slice\<close> of the standard
  library, given the comparison on elements; \<open>zero\<close> is the zero value of the type of the
  values, with which \<^verbatim>\<open>make\<close> fills \<^verbatim>\<open>indexedValues\<close>.
\<close>

record 'a hashedValue =
  Value :: 'a
  ValueIndex :: int
  Hash :: HexString

record 'a indexedValue =
  IValue :: 'a
  TreeIndex :: int

record MerkleTreeOptions =
  SortLeaves :: bool

text \<open>The first loop: every value with its position and its leaf hash.\<close>

definition hashValues :: "('a \<Rightarrow> HexString) \<Rightarrow> 'a list \<Rightarrow> 'a hashedValue list" where
  "hashValues leafHash values =
     map (\<lambda>(i, v). \<lparr>Value = v, ValueIndex = int i, Hash = leafHash v\<rparr>) (enumerate 0 values)"

text \<open>The comparison given to \<^verbatim>\<open>sort.Slice\<close>; an error of \<^verbatim>\<open>Compare\<close> reads as "not less".\<close>

definition hashLess :: "'a hashedValue \<Rightarrow> 'a hashedValue \<Rightarrow> bool" where
  "hashLess x y =
     (case Compare (VHexString (Hash x)) (VHexString (Hash y)) of
        Inl e \<Rightarrow> False
      | Inr result \<Rightarrow> result < 0)"

text \<open>The last loop, from \<^verbatim>\<open>leafIndex\<close> on; \<open>lenTree\<close> and \<open>lenHashed\<close> are \<^verbatim>\<open>len(tree)\<close> and
  \<^verbatim>\<open>len(hashedValues)\<close>.\<close>

fun assignIndices ::
  "int \<Rightarrow> int \<Rightarrow> 'a hashedValue list \<Rightarrow> int \<Rightarrow> 'a indexedValue list \<Rightarrow>
   error + 'a indexedValue list" where
  "assignIndices lenTree lenHashed [] leafIndex indexedValues = Inr indexedValues"
| "assignIndices lenTree lenHashed (hv # rest) leafIndex indexedValues =
     (let correctedIndex = lenTree - lenHashed + leafIndex in
      if correctedIndex < 0 \<or> correctedIndex \<ge> lenTree then Inl ErrTreeIndexOutOfBounds
      else if ValueIndex hv < 0 \<or> ValueIndex hv \<ge> int (length indexedValues)
        then Inl PanicIndexOutOfRange
      else assignIndices lenTree lenHashed rest (leafIndex + 1)
             (indexedValues[nat (ValueIndex hv) :=
                \<lparr>IValue = Value hv, TreeIndex = correctedIndex\<rparr>]))"

definition PrepareMerkleTree ::
  "(byte list \<Rightarrow> byte list) \<Rightarrow>
   (('a hashedValue \<Rightarrow> 'a hashedValue \<Rightarrow> bool) \<Rightarrow> 'a hashedValue list \<Rightarrow> 'a hashedValue list) \<Rightarrow>
   'a \<Rightarrow> 'a list \<Rightarrow> MerkleTreeOptions \<Rightarrow> ('a \<Rightarrow> HexString) \<Rightarrow> NodeHash option \<Rightarrow>
   error + (HexString list \<times> 'a indexedValue list)" where
  "PrepareMerkleTree K sort_Slice zero values options leafHash nodeHash =
     (let nodeHash' = (case nodeHash of None \<Rightarrow> StandardNodeHash K | Some f \<Rightarrow> f);
          hashedValues0 = hashValues leafHash values;
          hashedValues =
            (if SortLeaves options then sort_Slice hashLess hashedValues0 else hashedValues0);
          hashes = map (\<lambda>v. VHexString (Hash v)) hashedValues
      in case MakeMerkleTree hashes nodeHash' of
           Inl e \<Rightarrow> Inl e
         | Inr tree \<Rightarrow>
            (case assignIndices (int (length tree)) (int (length hashedValues)) hashedValues 0
                    (replicate (length values) \<lparr>IValue = zero, TreeIndex = 0\<rparr>) of
               Inl e \<Rightarrow> Inl e
             | Inr indexedValues \<Rightarrow> Inr (tree, indexedValues)))"

subsection \<open>Hex digits and canonical hash text\<close>

text \<open>The vocabulary of the statements below. A hex digit is a character
  \<^verbatim>\<open>hex.DecodeString\<close> accepts; a lower-case one is a character of \<^verbatim>\<open>hextable\<close>.\<close>

definition isHexDigit :: "char \<Rightarrow> bool" where
  "isHexDigit c = (fromHexChar c \<noteq> None)"

definition isLowerHexDigit :: "char \<Rightarrow> bool" where
  "isLowerHexDigit c = (c \<in> set hextable)"


text \<open>Plain text: a \<^verbatim>\<open>string\<close> or \<^verbatim>\<open>HexString\<close> without the prefix \<^verbatim>\<open>0x\<close>, which
  \<^verbatim>\<open>ToBytes\<close> reads as its own characters.\<close>

definition isPlainText :: "BytesLike \<Rightarrow> bool" where
  "isPlainText v =
     (case v of
        VString s \<Rightarrow> \<not> HasPrefix s ''0x''
      | VHexString s \<Rightarrow> \<not> HasPrefix s ''0x''
      | _ \<Rightarrow> False)"

text \<open>Hash text: \<^verbatim>\<open>0x\<close> and 64 hex digits (32 bytes); canonical when the digits are
  lower-case.\<close>

definition isNodeHex :: "HexString \<Rightarrow> bool" where
  "isNodeHex h = (HasPrefix h ''0x'' \<and> length h = 66 \<and> list_all isHexDigit (drop 2 h))"

definition isCanonicalHash :: "HexString \<Rightarrow> bool" where
  "isCanonicalHash h = (HasPrefix h ''0x'' \<and> length h = 66 \<and> list_all isLowerHexDigit (drop 2 h))"


subsection \<open>Facts about the codec\<close>

lemma fromHexChar_less: "fromHexChar c = Some d \<Longrightarrow> d < 16"
  by (auto simp: fromHexChar_def Let_def split: if_splits)

lemma less_16_cases:
  "(n::nat) < 16 \<Longrightarrow> n = 0 \<or> n = 1 \<or> n = 2 \<or> n = 3 \<or> n = 4 \<or> n = 5 \<or> n = 6 \<or> n = 7 \<or>
     n = 8 \<or> n = 9 \<or> n = 10 \<or> n = 11 \<or> n = 12 \<or> n = 13 \<or> n = 14 \<or> n = 15"
  by arith

lemma fromHexChar_hextable: "n < 16 \<Longrightarrow> fromHexChar (hextable ! n) = Some n"
  by (drule less_16_cases, elim disjE) (simp_all add: hextable_def fromHexChar_def)

lemma length_hextable: "length hextable = 16"
  by (simp add: hextable_def)

lemma lower_nth: "isLowerHexDigit c \<Longrightarrow> \<exists>d<16. c = hextable ! d"
  unfolding isLowerHexDigit_def in_set_conv_nth length_hextable by blast

lemma lower_is_hex: "isLowerHexDigit c \<Longrightarrow> isHexDigit c"
  by (auto simp: isHexDigit_def fromHexChar_hextable dest!: lower_nth)

lemma fromHexChar_lower_inj:
  "isLowerHexDigit c \<Longrightarrow> isLowerHexDigit c' \<Longrightarrow> fromHexChar c = fromHexChar c' \<Longrightarrow> c = c'"
  by (auto simp: fromHexChar_hextable dest!: lower_nth)

lemma hex_DecodeString_encode: "hex_DecodeString (hex_EncodeToString bs) = Inr bs"
proof (induction bs)
  case Nil
  then show ?case by (simp add: hex_EncodeToString_def)
next
  case (Cons b bs)
  have lt: "unat b div 16 < 16"
    using unsigned_less[of b, where 'a = nat] by (simp add: less_mult_imp_div_less)
  have "(word_of_nat (16 * (unat b div 16) + unat b mod 16) :: byte) = b" by simp
  with Cons lt show ?case
    by (simp add: hex_EncodeToString_def fromHexChar_hextable)
qed

lemma hex_DecodeString_length: "hex_DecodeString t = Inr bs \<Longrightarrow> length t = 2 * length bs"
  by (induction t arbitrary: bs rule: hex_DecodeString.induct)
     (auto split: option.splits sum.splits)

lemma hex_DecodeString_digits: "hex_DecodeString t = Inr bs \<Longrightarrow> list_all isHexDigit t"
  by (induction t arbitrary: bs rule: hex_DecodeString.induct)
     (auto simp: isHexDigit_def split: option.splits sum.splits)

lemma hex_DecodeString_ok:
  "list_all isHexDigit t \<Longrightarrow> even (length t) \<Longrightarrow> \<exists>bs. hex_DecodeString t = Inr bs"
proof (induction t rule: hex_DecodeString.induct)
  case 1
  then show ?case by simp
next
  case (2 p)
  then show ?case by simp
next
  case (3 p q rest)
  from 3(2) obtain a b where ab: "fromHexChar p = Some a" "fromHexChar q = Some b"
    by (auto simp: isHexDigit_def)
  from 3(2,3) have "list_all isHexDigit rest" "even (length rest)" by simp_all
  from 3(1)[OF ab this] obtain bs where "hex_DecodeString rest = Inr bs" by blast
  with ab show ?case by simp
qed

lemma hex_DecodeString_cong:
  "map fromHexChar t = map fromHexChar t' \<Longrightarrow> hex_DecodeString t = hex_DecodeString t'"
proof (induction t arbitrary: t' rule: hex_DecodeString.induct)
  case 1
  then show ?case by simp
next
  case (2 p)
  then obtain p' where "t' = [p']" by (cases t') auto
  then show ?case by simp
next
  case (3 p q rest)
  then obtain p' q' rest' where t': "t' = p' # q' # rest'"
    by (cases t'; cases "tl t'") auto
  with 3(2) have eq: "fromHexChar p = fromHexChar p'" "fromHexChar q = fromHexChar q'"
    "map fromHexChar rest = map fromHexChar rest'" by auto
  show ?case
  proof (cases "fromHexChar p")
    case None
    with eq t' show ?thesis by simp
  next
    case (Some a)
    note a = this
    show ?thesis
    proof (cases "fromHexChar q")
      case None
      with a eq t' show ?thesis by simp
    next
      case (Some b)
      from 3(1)[OF a Some eq(3)] a Some eq t' show ?thesis by simp
    qed
  qed
qed

lemma scanHex_inj:
  "length t = length t' \<Longrightarrow> scanHex a t = Some v \<Longrightarrow> scanHex a' t' = Some v
     \<Longrightarrow> a = a' \<and> map fromHexChar t = map fromHexChar t'"
proof (induction t t' arbitrary: a a' rule: list_induct2)
  case Nil
  then show ?case by simp
next
  case (Cons c cs c' cs')
  from Cons.prems obtain d d' where d: "fromHexChar c = Some d" "fromHexChar c' = Some d'"
    and s: "scanHex (16 * a + int d) cs = Some v" "scanHex (16 * a' + int d') cs' = Some v"
    by (auto split: option.splits)
  from Cons.IH[OF s] have e: "16 * a + int d = 16 * a' + int d'"
    and m: "map fromHexChar cs = map fromHexChar cs'"
    by simp_all
  from d have "d < 16" "d' < 16" by (auto dest: fromHexChar_less)
  then have "(16 * a + int d) div 16 = a" "(16 * a' + int d') div 16 = a'" by simp_all
  with e have "a = a'" by simp
  with e have "d = d'" by simp
  with \<open>a = a'\<close> d m show ?case by simp
qed

lemma scanHex_ok: "list_all isHexDigit t \<Longrightarrow> \<exists>v. scanHex a t = Some v"
  by (induction t arbitrary: a) (auto simp: isHexDigit_def)

lemma encode_length: "length (hex_EncodeToString bs) = 2 * length bs"
  by (induction bs) (auto simp: hex_EncodeToString_def)

lemma encode_lower: "list_all isLowerHexDigit (hex_EncodeToString bs)"
proof (induction bs)
  case Nil
  then show ?case by (simp add: hex_EncodeToString_def)
next
  case (Cons b bs)
  have l: "length hextable = 16" by (simp add: hextable_def)
  have lt: "unat b div 16 < 16"
    using unsigned_less[of b, where 'a = nat] by (simp add: less_mult_imp_div_less)
  have "hextable ! (unat b div 16) \<in> set hextable" "hextable ! (unat b mod 16) \<in> set hextable"
    using lt l by (simp_all only: nth_mem mod_less_divisor zero_less_numeral)
  with Cons show ?case by (simp add: hex_EncodeToString_def isLowerHexDigit_def)
qed

lemma HasPrefix_0x: "HasPrefix s ''0x'' \<Longrightarrow> s = ''0x'' @ drop 2 s"
  by (metis HasPrefix_def append_take_drop_id length_Cons list.size(3) numeral_2_eq_2)

lemma HasPrefix_0x_Cons [simp]: "HasPrefix (CHR ''0'' # CHR ''x'' # t) ''0x''"
  by (simp add: HasPrefix_def)

lemma TrimPrefix_0x: "TrimPrefix s ''0x'' = (if HasPrefix s ''0x'' then drop 2 s else s)"
  by (simp add: TrimPrefix_def numeral_2_eq_2)

lemma ToHex_text_prefixed:
  "HasPrefix s ''0x'' \<Longrightarrow> hex_DecodeString (drop 2 s) = Inr bs \<Longrightarrow> ToHex_text s = Inr (''0x'' @ drop 2 s)"
  by (simp add: ToHex_text_def TrimPrefix_0x)

text \<open>A value that is no plain text and decodes to bytes has a hex form whose digits
  decode to the same bytes.\<close>

lemma hex_form:
  assumes "ToBytes a = Inr bs" and "\<not> isPlainText a"
  shows "\<exists>t. ToHex a = Inr (''0x'' @ t) \<and> hex_DecodeString t = Inr bs"
proof (cases a)
  case (VBytes v)
  with assms show ?thesis by (simp add: hex_DecodeString_encode)
next
  case (VHexString s)
  with assms have p: "HasPrefix s ''0x''" and d: "hex_DecodeString (drop 2 s) = Inr bs"
    by (auto simp: isPlainText_def ToBytes_text_def split: if_splits)
  with VHexString show ?thesis by (simp add: ToHex_text_prefixed)
next
  case (VString s)
  with assms have p: "HasPrefix s ''0x''" and d: "hex_DecodeString (drop 2 s) = Inr bs"
    by (auto simp: isPlainText_def ToBytes_text_def split: if_splits)
  with VString show ?thesis by (simp add: ToHex_text_prefixed)
next
  case (VInts v)
  with assms show ?thesis by (auto simp: hex_DecodeString_encode)
qed (use assms in auto)

lemma bigInt_of_hex_scan:
  "scanHex 0 t = Some v \<Longrightarrow> bigInt_of_hex t = v"
  by (cases t) (auto simp: bigInt_of_hex_def bigInt_SetString16_def)

text \<open>Two hex forms of the same length with the same value decode to the same bytes.\<close>

lemma same_value_same_bytes:
  assumes "hex_DecodeString t = Inr bs" "hex_DecodeString t' = Inr bs'"
    and "length bs = length bs'" and "bigInt_of_hex t = bigInt_of_hex t'"
  shows "bs = bs'"
proof -
  from assms(1,2) have dg: "list_all isHexDigit t" "list_all isHexDigit t'"
    by (auto dest: hex_DecodeString_digits)
  then obtain v v' where v: "scanHex 0 t = Some v" "scanHex 0 t' = Some v'"
    using scanHex_ok by blast
  with assms(4) have "v = v'" by (simp add: bigInt_of_hex_scan)
  moreover from assms(1,2,3) have "length t = length t'"
    by (simp add: hex_DecodeString_length)
  ultimately have "map fromHexChar t = map fromHexChar t'"
    using v scanHex_inj by blast
  then have "hex_DecodeString t = hex_DecodeString t'" by (rule hex_DecodeString_cong)
  with assms(1,2) show ?thesis by simp
qed

lemma StandardNodeHash_commute:
  assumes a: "ToBytes a = Inr x" "\<not> isPlainText a"
      and b: "ToBytes b = Inr y" "\<not> isPlainText b"
      and len: "length x = length y"
  shows "StandardNodeHash K a b = StandardNodeHash K b a"
proof -
  from hex_form[OF a] obtain ta where ta: "ToHex a = Inr (''0x'' @ ta)" "hex_DecodeString ta = Inr x"
    by blast
  from hex_form[OF b] obtain tb where tb: "ToHex b = Inr (''0x'' @ tb)" "hex_DecodeString tb = Inr y"
    by blast
  define va where "va = bigInt_of_hex ta"
  define vb where "vb = bigInt_of_hex tb"
  have lba: "compareLess b a = (vb < va)" and lab: "compareLess a b = (va < vb)"
    using ta tb by (simp_all add: compareLess_def Compare_def bigInt_Cmp_def va_def vb_def)
  have cab: "Concat [a, b] = Inr (x @ y)" and cba: "Concat [b, a] = Inr (y @ x)"
    using a b by simp_all
  consider "vb < va" | "va < vb" | "va = vb" by linarith
  then have "Concat (sortPair a b) = Concat (sortPair b a)"
  proof cases
    case 1
    then show ?thesis by (simp add: sortPair_def lba lab)
  next
    case 2
    then show ?thesis by (simp add: sortPair_def lba lab)
  next
    case 3
    with same_value_same_bytes[OF ta(2) tb(2) len] have xy: "x = y" by (simp add: va_def vb_def)
    from 3 have sp: "sortPair a b = [a, b]" "sortPair b a = [b, a]"
      by (simp_all add: sortPair_def lba lab)
    show ?thesis unfolding sp cab cba using xy by simp
  qed
  then show ?thesis by (simp add: StandardNodeHash_def)
qed

section \<open>The claims about the codec, the hashes and the index arithmetic\<close>

text \<open>
  The closed examples below need a digest function in the place of Keccak-256. \<open>sampleDigest\<close>
  is not Keccak: it returns the first 32 bytes of its input, padded with zeros. Like Keccak
  it always returns 32 bytes, which is all the theorems ask of the parameter \<open>K\<close>.
\<close>

definition sampleDigest :: "byte list \<Rightarrow> byte list" where
  "sampleDigest bs = take 32 (bs @ replicate 32 0)"

lemma sampleDigest_length: "length (sampleDigest bs) = 32"
  by (simp add: sampleDigest_def)

lemma IsValidMerkleNode_bytes:
  "IsValidMerkleNode a \<longleftrightarrow> (\<exists>bs. ToBytes a = Inr bs \<and> length bs = 32)"
  by (auto simp: IsValidMerkleNode_def split: sum.splits)

lemma ToHex_shape:
  assumes "ToHex v = Inr h"
  shows "\<exists>t bs. h = ''0x'' @ t \<and> hex_DecodeString t = Inr bs"
proof (cases v)
  case (VBytes x)
  with assms show ?thesis by (auto simp: hex_DecodeString_encode)
next
  case (VHexString s)
  with assms show ?thesis by (auto simp: ToHex_text_def split: sum.splits)
next
  case (VString s)
  with assms show ?thesis by (auto simp: ToHex_text_def split: sum.splits)
next
  case (VInts x)
  with assms show ?thesis by (auto simp: hex_DecodeString_encode)
qed (use assms in auto)

lemma digest_hex_canonical:
  "length d = 32 \<Longrightarrow> isCanonicalHash (CHR ''0'' # CHR ''x'' # hex_EncodeToString d)"
  by (simp add: isCanonicalHash_def encode_length encode_lower)

lemma StandardLeafHash_cases:
  "StandardLeafHash K v = '''' \<or> (\<exists>bs. StandardLeafHash K v = ''0x'' @ hex_EncodeToString (K bs))"
  by (auto simp: StandardLeafHash_def keccak256HashedData_def split: sum.splits)

lemma StandardNodeHash_cases:
  "StandardNodeHash K a b = '''' \<or> (\<exists>bs. StandardNodeHash K a b = ''0x'' @ hex_EncodeToString (K bs))"
  by (auto simp: StandardNodeHash_def keccak256HashedData_def split: sum.splits)

lemma checkProofNodes_iff:
  "checkProofNodes pf = (if \<exists>node\<in>set pf. \<not> IsValidMerkleNode node then Some ErrInvalidNode else None)"
  by (induction pf) (auto simp: CheckValidMerkleNode_def)

lemma foldProof_ok:
  "map ToHex pf = map Inr sibs \<Longrightarrow>
   foldProof nodeHash l pf = Inr (foldl (\<lambda>r s. nodeHash (VHexString r) (VHexString s)) l sibs)"
proof (induction pf arbitrary: l sibs)
  case Nil
  then show ?case by simp
next
  case (Cons p pf)
  then obtain s sibs' where "sibs = s # sibs'" "ToHex p = Inr s" "map ToHex pf = map Inr sibs'"
    by (cases sibs) auto
  with Cons.IH show ?case by simp
qed

lemma ToHex_error_of_valid:
  "IsValidMerkleNode n \<Longrightarrow> ToHex n = Inl e \<Longrightarrow> e = ErrInvalidHexString"
  by (cases n) (auto simp: IsValidMerkleNode_def ToHex_text_def split: sum.splits)

lemma foldProof_err:
  "\<exists>node\<in>set pf. \<exists>e. ToHex node = Inl e \<Longrightarrow> \<forall>node\<in>set pf. IsValidMerkleNode node \<Longrightarrow>
   foldProof nodeHash l pf = Inl ErrInvalidHexString"
proof (induction pf arbitrary: l)
  case Nil
  then show ?case by simp
next
  case (Cons p pf)
  show ?case
  proof (cases "ToHex p")
    case (Inl e)
    with Cons.prems(2) have "e = ErrInvalidHexString" by (auto dest: ToHex_error_of_valid)
    with Inl show ?thesis by simp
  next
    case (Inr s)
    with Cons.prems have "\<exists>node\<in>set pf. \<exists>e. ToHex node = Inl e" "\<forall>node\<in>set pf. IsValidMerkleNode node"
      by auto
    from Cons.IH[OF this] Inr show ?thesis by simp
  qed
qed

lemma unsupported_types:
  "(\<exists>e. abiEncodePacked [v] = Inl e) \<longleftrightarrow>
     (case v of VHexString _ \<Rightarrow> True | VInts _ \<Rightarrow> True | VOther \<Rightarrow> True | _ \<Rightarrow> False)"
  by (cases v) auto

lemma SiblingIndex_pos: "0 < i \<Longrightarrow> SiblingIndex i = (if even i then i - 1 else i + 1)"
proof (cases "even i")
  case True
  assume "0 < i"
  moreover from True have "i mod 2 = 0" by presburger
  ultimately show ?thesis using True by (simp add: SiblingIndex_def)
next
  case False
  assume "0 < i"
  moreover from False have "i mod 2 = 1" by presburger
  ultimately show ?thesis using False by (simp add: SiblingIndex_def)
qed

lemma index_arithmetic_exact:
  "LeftChildIndex i = 2 * i + 1 \<and> RightChildIndex i = 2 * i + 2 \<and>
   (0 < i \<and> i \<le> 2 ^ 53 \<longrightarrow> ParentIndex i = (i - 1) div 2) \<and>
   (0 < i \<longrightarrow> SiblingIndex i = (if even i then i - 1 else i + 1))"
  using SiblingIndex_pos[of i] ParentIndex_exact[of i]
  by (simp add: LeftChildIndex_def RightChildIndex_def)

lemma excess_bits_above: "excess_bits 9007199254740993 = 1"
  by (subst excess_bits.simps, simp, subst excess_bits.simps, simp)

subsection \<open>C3\<close>

text \<open>
  Where \<^verbatim>\<open>Compare\<close> succeeds the function does what its documentation says ("sorts the nodes
  to ensure consistency regardless of the order they are provided"):
  \<^verbatim>\<open>StandardNodeHash(a, b) == StandardNodeHash(b, a)\<close> for every pair of valid 32-byte nodes
  that are byte sequences, int sequences or \<^verbatim>\<open>0x\<close>-prefixed hex text (valid nodes that are no
  plain text): the pair is ordered by \<^verbatim>\<open>Compare\<close>, the bytes of the smaller value first, then
  concatenated and hashed.
\<close>

lemma StandardNodeHash_commutative:
  assumes "IsValidMerkleNode a" and "IsValidMerkleNode b"
    and "\<not> isPlainText a" and "\<not> isPlainText b"
  shows "StandardNodeHash K a b = StandardNodeHash K b a \<and>
         (\<exists>x y. ToBytes a = Inr x \<and> ToBytes b = Inr y \<and>
            StandardNodeHash K a b =
              ''0x'' @ hex_EncodeToString (K (if Compare b a = Inr (- 1) then y @ x else x @ y)))"
proof -
  from assms(1,2) obtain x y where x: "ToBytes a = Inr x" "length x = 32"
    and y: "ToBytes b = Inr y" "length y = 32"
    by (auto simp: IsValidMerkleNode_bytes)
  have c: "StandardNodeHash K a b = StandardNodeHash K b a"
    using StandardNodeHash_commute[OF x(1) assms(3) y(1) assms(4)] x(2) y(2) by simp
  from hex_form[OF x(1) assms(3)] hex_form[OF y(1) assms(4)]
  obtain r where "Compare b a = Inr r" "r = - 1 \<or> r = 0 \<or> r = 1"
    by (auto simp: Compare_def bigInt_Cmp_def)
  then have "compareLess b a = (Compare b a = Inr (- 1))"
    by (auto simp: compareLess_def)
  then have "StandardNodeHash K a b =
      ''0x'' @ hex_EncodeToString (K (if Compare b a = Inr (- 1) then y @ x else x @ y))"
    using x(1) y(1)
    by (simp add: StandardNodeHash_def sortPair_def keccak256HashedData_def)
  with c x(1) y(1) show ?thesis by blast
qed

lemma StandardNodeHash_commutative_example:
  "IsValidMerkleNode (VBytes (replicate 32 7)) \<and>
   IsValidMerkleNode (VHexString (''0x'' @ replicate 64 CHR ''F'')) \<and>
   \<not> isPlainText (VBytes (replicate 32 7)) \<and>
   \<not> isPlainText (VHexString (''0x'' @ replicate 64 CHR ''F'')) \<and>
   StandardNodeHash sampleDigest (VBytes (replicate 32 7))
       (VHexString (''0x'' @ replicate 64 CHR ''F'')) =
     StandardNodeHash sampleDigest (VHexString (''0x'' @ replicate 64 CHR ''F''))
       (VBytes (replicate 32 7))"
proof -
  have h1: "IsValidMerkleNode (VBytes (replicate 32 7))" by code_simp
  have h2: "IsValidMerkleNode (VHexString (''0x'' @ replicate 64 CHR ''F''))" by code_simp
  have h3: "\<not> isPlainText (VBytes (replicate 32 7))" by code_simp
  have h4: "\<not> isPlainText (VHexString (''0x'' @ replicate 64 CHR ''F''))" by code_simp
  from StandardNodeHash_commutative[OF h1 h2 h3 h4, of sampleDigest] h1 h2 h3 h4
  show ?thesis by blast
qed

text \<open>
  C3. \<^verbatim>\<open>StandardNodeHash(a, b) == StandardNodeHash(b, a)\<close> for every pair of valid 32-byte
  nodes, the pair being ordered by \<^verbatim>\<open>Compare\<close> before it is concatenated and hashed: the code
  does not do this on plain text. Two different strings of 32 characters without \<^verbatim>\<open>0x\<close> are
  valid nodes, since \<^verbatim>\<open>ToBytes\<close> reads them as raw bytes; \<^verbatim>\<open>Compare\<close> reads them as hex digits
  and fails, the \<^verbatim>\<open>less\<close> closure drops the error and answers false, and the pair is hashed in
  the order given. The two calls hash different byte strings.
\<close>

theorem StandardNodeHash_plain_text_order:
  "IsValidMerkleNode (VString (replicate 32 CHR ''z'')) \<and>
   IsValidMerkleNode (VString (replicate 32 CHR ''y'')) \<and>
   Concat (sortPair (VString (replicate 32 CHR ''z'')) (VString (replicate 32 CHR ''y''))) =
     Inr (replicate 32 122 @ replicate 32 121) \<and>
   Concat (sortPair (VString (replicate 32 CHR ''y'')) (VString (replicate 32 CHR ''z''))) =
     Inr (replicate 32 121 @ replicate 32 122) \<and>
   StandardNodeHash sampleDigest (VString (replicate 32 CHR ''z''))
       (VString (replicate 32 CHR ''y'')) \<noteq>
     StandardNodeHash sampleDigest (VString (replicate 32 CHR ''y''))
       (VString (replicate 32 CHR ''z''))"
  by code_simp

subsection \<open>C6\<close>

text \<open>
  C6, as amended. \<^verbatim>\<open>ProcessProof\<close> fails with \<^verbatim>\<open>ErrInvalidNode\<close> whenever the leaf or a
  proof element does not decode to exactly 32 bytes. When all of them are 32 bytes, it
  fails with the invalid-hex error if the leaf or a proof element has no hex form, and
  otherwise returns \<^verbatim>\<open>ToHex\<close> of the left-to-right fold of \<^verbatim>\<open>nodeHash\<close> over the hex forms
  of the leaf and of the proof elements, in order.
\<close>

theorem ProcessProof_validation:
  "(\<not> IsValidMerkleNode leaf \<or> (\<exists>node\<in>set pf. \<not> IsValidMerkleNode node)
      \<longrightarrow> ProcessProof leaf pf nodeHash = Inl ErrInvalidNode) \<and>
   (IsValidMerkleNode leaf \<and> (\<forall>node\<in>set pf. IsValidMerkleNode node) \<and>
    ((\<exists>e. ToHex leaf = Inl e) \<or> (\<exists>node\<in>set pf. \<exists>e. ToHex node = Inl e))
      \<longrightarrow> ProcessProof leaf pf nodeHash = Inl ErrInvalidHexString) \<and>
   (IsValidMerkleNode leaf \<and> (\<forall>node\<in>set pf. IsValidMerkleNode node) \<and>
    ToHex leaf = Inr l \<and> map ToHex pf = map Inr sibs
      \<longrightarrow> ProcessProof leaf pf nodeHash =
            ToHex (VHexString (foldl (\<lambda>r s. nodeHash (VHexString r) (VHexString s)) l sibs)))"
proof (intro conjI impI)
  assume "\<not> IsValidMerkleNode leaf \<or> (\<exists>node\<in>set pf. \<not> IsValidMerkleNode node)"
  then show "ProcessProof leaf pf nodeHash = Inl ErrInvalidNode"
    by (auto simp: ProcessProof_def CheckValidMerkleNode_def checkProofNodes_iff)
next
  assume h: "IsValidMerkleNode leaf \<and> (\<forall>node\<in>set pf. IsValidMerkleNode node) \<and>
    ((\<exists>e. ToHex leaf = Inl e) \<or> (\<exists>node\<in>set pf. \<exists>e. ToHex node = Inl e))"
  then have v: "CheckValidMerkleNode leaf = None" "checkProofNodes pf = None"
    by (auto simp: CheckValidMerkleNode_def checkProofNodes_iff)
  show "ProcessProof leaf pf nodeHash = Inl ErrInvalidHexString"
  proof (cases "ToHex leaf")
    case (Inl e)
    with h have "e = ErrInvalidHexString" by (auto dest: ToHex_error_of_valid)
    with Inl v show ?thesis by (simp add: ProcessProof_def)
  next
    case (Inr r)
    with h have "\<exists>node\<in>set pf. \<exists>e. ToHex node = Inl e" by auto
    with h have "foldProof nodeHash r pf = Inl ErrInvalidHexString"
      by (intro foldProof_err) auto
    with Inr v show ?thesis by (simp add: ProcessProof_def)
  qed
next
  assume h: "IsValidMerkleNode leaf \<and> (\<forall>node\<in>set pf. IsValidMerkleNode node) \<and>
    ToHex leaf = Inr l \<and> map ToHex pf = map Inr sibs"
  then have v: "CheckValidMerkleNode leaf = None" "checkProofNodes pf = None"
    by (auto simp: CheckValidMerkleNode_def checkProofNodes_iff)
  from h have "foldProof nodeHash l pf =
      Inr (foldl (\<lambda>r s. nodeHash (VHexString r) (VHexString s)) l sibs)"
    by (intro foldProof_ok) simp
  with h v show "ProcessProof leaf pf nodeHash =
            ToHex (VHexString (foldl (\<lambda>r s. nodeHash (VHexString r) (VHexString s)) l sibs))"
    by (simp add: ProcessProof_def)
qed

theorem ProcessProof_validation_witness:
  "\<not> IsValidMerkleNode (VBytes [1]) \<and>
   ProcessProof (VBytes [1]) [] (StandardNodeHash sampleDigest) = Inl ErrInvalidNode \<and>
   IsValidMerkleNode (VString (replicate 32 CHR ''z'')) \<and>
   ToHex (VString (replicate 32 CHR ''z'')) = Inl ErrInvalidHexString \<and>
   ProcessProof (VString (replicate 32 CHR ''z'')) [] (StandardNodeHash sampleDigest) =
     Inl ErrInvalidHexString \<and>
   IsValidMerkleNode (VBytes (replicate 32 1)) \<and>
   IsValidMerkleNode (VBytes (replicate 32 2)) \<and>
   ProcessProof (VBytes (replicate 32 1)) [VBytes (replicate 32 2)] (StandardNodeHash sampleDigest) =
     ToHex (VHexString (StandardNodeHash sampleDigest
       (VHexString (''0x'' @ concat (replicate 32 ''01'')))
       (VHexString (''0x'' @ concat (replicate 32 ''02'')))))"
proof -
  let ?H = "StandardNodeHash sampleDigest"
  have a: "\<not> IsValidMerkleNode (VBytes [1])" by code_simp
  have b: "IsValidMerkleNode (VString (replicate 32 CHR ''z''))" by code_simp
  have c: "ToHex (VString (replicate 32 CHR ''z'')) = Inl ErrInvalidHexString" by code_simp
  have d: "IsValidMerkleNode (VBytes (replicate 32 1))" by code_simp
  have e: "IsValidMerkleNode (VBytes (replicate 32 2))" by code_simp
  have f: "ToHex (VBytes (replicate 32 1)) = Inr (''0x'' @ concat (replicate 32 ''01''))"
    by code_simp
  have g: "map ToHex [VBytes (replicate 32 2)] = map Inr [''0x'' @ concat (replicate 32 ''02'')]"
    by code_simp
  from ProcessProof_validation[of "VBytes [1]" "[]" ?H] a
  have 1: "ProcessProof (VBytes [1]) [] ?H = Inl ErrInvalidNode" by simp
  from ProcessProof_validation[of "VString (replicate 32 CHR ''z'')" "[]" ?H] b c
  have 2: "ProcessProof (VString (replicate 32 CHR ''z'')) [] ?H = Inl ErrInvalidHexString"
    by simp
  from ProcessProof_validation[of "VBytes (replicate 32 1)" "[VBytes (replicate 32 2)]" ?H
      "''0x'' @ concat (replicate 32 ''01'')" "[''0x'' @ concat (replicate 32 ''02'')]"] d e f g
  have 3: "ProcessProof (VBytes (replicate 32 1)) [VBytes (replicate 32 2)] ?H =
     ToHex (VHexString (?H (VHexString (''0x'' @ concat (replicate 32 ''01'')))
       (VHexString (''0x'' @ concat (replicate 32 ''02'')))))"
    by simp
  from a b c d e 1 2 3 show ?thesis by blast
qed

text \<open>
  The claim as stated fails on a leaf of exactly 32 bytes that is plain text: the node
  check passes, the conversion to hex fails, and no fold is returned.
\<close>

theorem ProcessProof_plain_text_leaf:
  "IsValidMerkleNode (VString (replicate 32 CHR ''z'')) \<and>
   ProcessProof (VString (replicate 32 CHR ''z'')) [] (StandardNodeHash sampleDigest) =
     Inl ErrInvalidHexString"
  by code_simp

subsection \<open>C7\<close>

text \<open>
  C7. The claim asks \<^verbatim>\<open>ParentIndex(i) = floor((i-1)/2)\<close> for every \<open>i > 0\<close>. At
  \<open>i = 2^53 + 1\<close> the conversion \<^verbatim>\<open>float64(i)\<close> rounds to \<open>2^53\<close>, and the function returns
  \<open>2^52 - 1\<close> where the parent is \<open>2^52\<close>.
\<close>

theorem ParentIndex_loses_precision:
  "ParentIndex 9007199254740993 = 4503599627370495 \<and>
   (9007199254740993 - 1) div 2 = (4503599627370496 :: int)"
  by (simp add: ParentIndex_def float64_round_def Let_def excess_bits_above excess_bits_small)

subsection \<open>C8\<close>

text \<open>
  C8, as amended. For every input on which \<^verbatim>\<open>ToHex\<close> succeeds the result is \<^verbatim>\<open>0x\<close> followed
  by an even number of hex digits; the digits are lower-case when the input is a byte or
  int sequence, and they are the digits of the input, in the case they were written in,
  when it is a \<^verbatim>\<open>string\<close> or a \<^verbatim>\<open>HexString\<close>. A hash returned by \<^verbatim>\<open>StandardLeafHash\<close> or
  \<^verbatim>\<open>StandardNodeHash\<close> is the empty string of the error case or canonical: \<^verbatim>\<open>0x\<close> and
  exactly 64 lower-case hex digits (Keccak-256 digests have 32 bytes).
\<close>

theorem ToHex_form:
  "(ToHex v = Inr h \<longrightarrow>
      HasPrefix h ''0x'' \<and> even (length (drop 2 h)) \<and> list_all isHexDigit (drop 2 h)) \<and>
   (ToHex (VBytes bs) = Inr h \<or> ToHex (VInts ns) = Inr h \<longrightarrow>
      list_all isLowerHexDigit (drop 2 h)) \<and>
   (ToHex (VString s) = Inr h \<or> ToHex (VHexString s) = Inr h \<longrightarrow>
      drop 2 h = TrimPrefix s ''0x'') \<and>
   ((\<forall>x. length (K x) = 32) \<longrightarrow>
      (StandardLeafHash K v = '''' \<or> isCanonicalHash (StandardLeafHash K v)) \<and>
      (StandardNodeHash K a b = '''' \<or> isCanonicalHash (StandardNodeHash K a b)))"
proof (intro conjI impI)
  assume "ToHex v = Inr h"
  from ToHex_shape[OF this] obtain t bs where t: "h = ''0x'' @ t" "hex_DecodeString t = Inr bs"
    by blast
  then show "HasPrefix h ''0x''" by simp
  from t show "even (length (drop 2 h))" by (simp add: hex_DecodeString_length)
  from t show "list_all isHexDigit (drop 2 h)" by (simp add: hex_DecodeString_digits)
next
  assume "ToHex (VBytes bs) = Inr h \<or> ToHex (VInts ns) = Inr h"
  then show "list_all isLowerHexDigit (drop 2 h)" by (auto simp: encode_lower)
next
  assume "ToHex (VString s) = Inr h \<or> ToHex (VHexString s) = Inr h"
  then show "drop 2 h = TrimPrefix s ''0x''" by (auto simp: ToHex_text_def split: sum.splits)
next
  assume K: "\<forall>x. length (K x) = 32"
  show "StandardLeafHash K v = '''' \<or> isCanonicalHash (StandardLeafHash K v)"
    using StandardLeafHash_cases[of K v] K by (auto simp: digest_hex_canonical)
  show "StandardNodeHash K a b = '''' \<or> isCanonicalHash (StandardNodeHash K a b)"
    using StandardNodeHash_cases[of K a b] K by (auto simp: digest_hex_canonical)
qed

theorem ToHex_form_witness:
  "ToHex (VBytes [171]) = Inr ''0xab'' \<and> ToHex (VString ''Ab'') = Inr ''0xAb'' \<and>
   HasPrefix ''0xab'' ''0x'' \<and> list_all isLowerHexDigit ''ab'' \<and> list_all isHexDigit ''ab'' \<and>
   drop 2 ''0xAb'' = TrimPrefix ''Ab'' ''0x'' \<and>
   isCanonicalHash (StandardLeafHash sampleDigest (VString ''alice'')) \<and>
   isCanonicalHash (StandardNodeHash sampleDigest (VBytes [1]) (VBytes [2]))"
proof -
  have a: "ToHex (VBytes [171]) = Inr ''0xab''" by code_simp
  have b: "ToHex (VString ''Ab'') = Inr ''0xAb''" by code_simp
  have k: "\<forall>x. length (sampleDigest x) = 32" by (simp add: sampleDigest_length)
  have l: "StandardLeafHash sampleDigest (VString ''alice'') \<noteq> ''''" by code_simp
  have n: "StandardNodeHash sampleDigest (VBytes [1]) (VBytes [2]) \<noteq> ''''" by code_simp
  from ToHex_form[of "VBytes [171]" "''0xab''" "[171]" "[]" "''Ab''" sampleDigest "VBytes [1]" "VBytes [2]"] a
  have 1: "HasPrefix ''0xab'' ''0x'' \<and> list_all isLowerHexDigit ''ab'' \<and> list_all isHexDigit ''ab''"
    and 2: "isCanonicalHash (StandardNodeHash sampleDigest (VBytes [1]) (VBytes [2]))"
    using k n by simp_all
  from ToHex_form[of "VString ''alice''" "''0xAb''" "[]" "[]" "''Ab''" sampleDigest "VBytes [1]" "VBytes [2]"] b
  have 3: "drop 2 ''0xAb'' = TrimPrefix ''Ab'' ''0x''"
    and 4: "isCanonicalHash (StandardLeafHash sampleDigest (VString ''alice''))"
    using k l by simp_all
  from a b 1 2 3 4 show ?thesis by blast
qed

text \<open>
  The claim as stated fails on upper-case text, which \<^verbatim>\<open>ToHex\<close> returns as it is, and on
  the tree of a value the packed encoder does not support, whose leaf is \<^verbatim>\<open>0x\<close>.
\<close>

theorem ToHex_not_lowercase:
  "ToHex (VString ''0xAB'') = Inr ''0xAB'' \<and> \<not> list_all isLowerHexDigit ''AB'' \<and>
   StandardLeafHash sampleDigest VOther = '''' \<and>
   MakeMerkleTree [VHexString (StandardLeafHash sampleDigest VOther)] (StandardNodeHash sampleDigest)
     = Inr [''0x'']"
  by code_simp

subsection \<open>C9\<close>



section \<open>The tree builder\<close>

lemma elemAt_nat [simp]:
  "elemAt xs (int n) = (if n < length xs then Inr (xs ! n) else Inl PanicIndexOutOfRange)"
  by (simp add: elemAt_def)

lemma LeftChildIndex_nat: "LeftChildIndex (int i) = int (2 * i + 1)"
  by (simp add: LeftChildIndex_def)

lemma RightChildIndex_nat: "RightChildIndex (int i) = int (2 * i + 2)"
  by (simp add: RightChildIndex_def)

lemma leavesToHex_Inr:
  "leavesToHex hashes = Inr leaves \<longleftrightarrow> map ToHex hashes = map Inr leaves"
proof (induction hashes arbitrary: leaves)
  case Nil
  then show ?case by auto
next
  case (Cons h hashes)
  show ?case
  proof (cases "ToHex h")
    case (Inl e)
    then show ?thesis by (cases leaves) auto
  next
    case (Inr l)
    show ?thesis
    proof (cases "leavesToHex hashes")
      case (Inl e)
      with Cons.IH have "\<And>ls. map ToHex hashes \<noteq> map Inr ls" by auto
      with Inl Inr show ?thesis by (cases leaves) auto
    next
      case r: (Inr ls)
      with Cons.IH[of ls] have m: "map ToHex hashes = map Inr ls" by simp
      have "map Inr ls = map Inr ls' \<longleftrightarrow> ls = ls'" for ls' :: "HexString list"
        by (simp add: inj_map_eq_map)
      with m r Inr show ?thesis by (cases leaves) auto
    qed
  qed
qed


lemma elemAt_LeftChild:
  "2 * k + 1 < length tree \<Longrightarrow> elemAt tree (LeftChildIndex (int k)) = Inr (tree ! (2 * k + 1))"
proof -
  assume a: "2 * k + 1 < length tree"
  have "nat (2 * int k + 1) = 2 * k + 1" by simp
  with a show ?thesis by (simp only: elemAt_def LeftChildIndex_def) simp
qed

lemma elemAt_RightChild:
  "2 * k + 2 < length tree \<Longrightarrow> elemAt tree (RightChildIndex (int k)) = Inr (tree ! (2 * k + 2))"
proof -
  assume a: "2 * k + 2 < length tree"
  have "nat (2 * int k + 2) = 2 * k + 2" by simp
  with a show ?thesis by (simp only: elemAt_def RightChildIndex_def) simp
qed

text \<open>The second loop of \<^verbatim>\<open>MakeMerkleTree\<close>: it never reads out of range, leaves the
  positions from \<open>k\<close> on as they are, and makes every node below \<open>k\<close> the hash of its
  children.\<close>

lemma fillInternal_spec:
  assumes "2 * k + 1 \<le> length tree"
  shows "\<exists>tree'. fillInternal nodeHash tree k = Inr tree' \<and> length tree' = length tree \<and>
           (\<forall>j. k \<le> j \<and> j < length tree \<longrightarrow> tree' ! j = tree ! j) \<and>
           (\<forall>i<k. tree' ! i =
              nodeHash (VHexString (tree' ! (2 * i + 1))) (VHexString (tree' ! (2 * i + 2))))"
  using assms
proof (induction k arbitrary: tree)
  case 0
  then show ?case by simp
next
  case (Suc k)
  define v where "v = nodeHash (VHexString (tree ! (2 * k + 1))) (VHexString (tree ! (2 * k + 2)))"
  define tree1 where "tree1 = tree[k := v]"
  from Suc.prems have len: "2 * k + 2 < length tree" by simp
  then have step: "fillInternal nodeHash tree (Suc k) = fillInternal nodeHash tree1 k"
    by (simp add: elemAt_LeftChild elemAt_RightChild tree1_def v_def)
  have "2 * k + 1 \<le> length tree1" using len by (simp add: tree1_def)
  from Suc.IH[OF this] obtain tree' where t: "fillInternal nodeHash tree1 k = Inr tree'"
    "length tree' = length tree1"
    "\<forall>j. k \<le> j \<and> j < length tree1 \<longrightarrow> tree' ! j = tree1 ! j"
    "\<forall>i<k. tree' ! i = nodeHash (VHexString (tree' ! (2 * i + 1))) (VHexString (tree' ! (2 * i + 2)))"
    by blast
  have l1: "length tree1 = length tree" by (simp add: tree1_def)
  have keep: "tree' ! j = tree ! j" if "Suc k \<le> j" "j < length tree" for j
    using that t(3) l1 by (simp add: tree1_def)
  have atk: "tree' ! k = v" using t(3) l1 len by (simp add: tree1_def)
  have "tree' ! i = nodeHash (VHexString (tree' ! (2 * i + 1))) (VHexString (tree' ! (2 * i + 2)))"
    if "i < Suc k" for i
  proof (cases "i = k")
    case True
    have "tree' ! (2 * k + 1) = tree ! (2 * k + 1)" "tree' ! (2 * k + 2) = tree ! (2 * k + 2)"
      using len by (simp_all add: keep)
    with atk True show ?thesis by (simp add: v_def)
  next
    case False
    with that have "i < k" by simp
    with t(4) show ?thesis by blast
  qed
  with step t(1,2) l1 keep show ?case by auto
qed

lemma MakeMerkleTree_spec:
  assumes "hashes \<noteq> []" and "map ToHex hashes = map Inr leaves"
  shows "\<exists>tree. MakeMerkleTree hashes nodeHash = Inr tree \<and>
           length tree = 2 * length hashes - 1 \<and>
           drop (length hashes - 1) tree = leaves \<and>
           (\<forall>i<length hashes - 1. tree ! i =
              nodeHash (VHexString (tree ! (2 * i + 1))) (VHexString (tree ! (2 * i + 2))))"
proof -
  define n where "n = length hashes"
  from assms(2) have ln: "length leaves = n" unfolding n_def by (metis length_map)
  from assms(1) have n: "1 \<le> n" by (cases hashes) (simp_all add: n_def)
  define tree0 where "tree0 = replicate (n - 1) ([] :: HexString) @ leaves"
  have l0: "length tree0 = 2 * n - 1" using n ln by (simp add: tree0_def)
  have mk: "MakeMerkleTree hashes nodeHash = fillInternal nodeHash tree0 (n - 1)"
    using assms n ln
    by (simp add: MakeMerkleTree_def leavesToHex_Inr[THEN iffD2] Let_def tree0_def n_def)
  have "2 * (n - 1) + 1 \<le> length tree0" using n l0 by simp
  from fillInternal_spec[OF this, of nodeHash] obtain tree where t:
    "fillInternal nodeHash tree0 (n - 1) = Inr tree" "length tree = length tree0"
    "\<forall>j. n - 1 \<le> j \<and> j < length tree0 \<longrightarrow> tree ! j = tree0 ! j"
    "\<forall>i<n - 1. tree ! i = nodeHash (VHexString (tree ! (2 * i + 1))) (VHexString (tree ! (2 * i + 2)))"
    by blast
  have "drop (n - 1) tree = leaves"
  proof (rule nth_equalityI)
    show "length (drop (n - 1) tree) = length leaves" using t(2) l0 ln n by simp
  next
    fix i assume "i < length (drop (n - 1) tree)"
    then have i: "n - 1 + i < length tree0" using t(2) by simp
    then have "tree ! (n - 1 + i) = tree0 ! (n - 1 + i)" using t(3) by simp
    also have "\<dots> = leaves ! i" by (simp add: tree0_def nth_append)
    finally show "drop (n - 1) tree ! i = leaves ! i" using i t(2) by simp
  qed
  with mk t l0 show ?thesis unfolding n_def by auto
qed

section \<open>Trees and single proofs\<close>

text \<open>A node hash fit for the tree: on hash text it returns hash text and does not depend
  on the order of its arguments.\<close>

definition properNodeHash :: "NodeHash \<Rightarrow> bool" where
  "properNodeHash nodeHash =
     (\<forall>a b. isNodeHex a \<and> isNodeHex b \<longrightarrow>
        isNodeHex (nodeHash (VHexString a) (VHexString b)) \<and>
        nodeHash (VHexString a) (VHexString b) = nodeHash (VHexString b) (VHexString a))"

lemma isNodeHex_decode:
  assumes "isNodeHex h"
  shows "\<exists>bs. hex_DecodeString (drop 2 h) = Inr bs \<and> length bs = 32"
proof -
  from assms have d: "list_all isHexDigit (drop 2 h)" and l: "length (drop 2 h) = 64"
    by (simp_all add: isNodeHex_def)
  from l have "even (length (drop 2 h))" by simp
  from hex_DecodeString_ok[OF d this] obtain bs where bs: "hex_DecodeString (drop 2 h) = Inr bs"
    by blast
  from hex_DecodeString_length[OF bs] l have "length bs = 32" by simp
  with bs show ?thesis by blast
qed

lemma isNodeHex_valid: "isNodeHex h \<Longrightarrow> IsValidMerkleNode (VHexString h)"
  using isNodeHex_decode[of h]
  by (auto simp: IsValidMerkleNode_def ToBytes_text_def isNodeHex_def)

lemma isNodeHex_ToHex: "isNodeHex h \<Longrightarrow> ToHex (VHexString h) = Inr h"
proof -
  assume h: "isNodeHex h"
  then have p: "HasPrefix h ''0x''" by (simp add: isNodeHex_def)
  from isNodeHex_decode[OF h] obtain bs where "hex_DecodeString (drop 2 h) = Inr bs" by blast
  from ToHex_text_prefixed[OF p this] HasPrefix_0x[OF p] show ?thesis by simp
qed

lemma isNodeHex_ToHex_text: "isNodeHex h \<Longrightarrow> ToHex_text h = Inr h"
  using isNodeHex_ToHex[of h] by simp

lemma isNodeHex_not_plain: "isNodeHex h \<Longrightarrow> \<not> isPlainText (VHexString h)"
  by (simp add: isNodeHex_def isPlainText_def)

lemma isCanonicalHash_isNodeHex: "isCanonicalHash h \<Longrightarrow> isNodeHex h"
  by (auto simp: isCanonicalHash_def isNodeHex_def list_all_iff lower_is_hex)

lemma StandardNodeHash_proper:
  assumes "\<forall>x. length (K x) = 32"
  shows "properNodeHash (StandardNodeHash K)"
  unfolding properNodeHash_def
proof (intro allI impI conjI)
  fix a b assume ab: "isNodeHex a \<and> isNodeHex b"
  then have va: "IsValidMerkleNode (VHexString a)" and vb: "IsValidMerkleNode (VHexString b)"
    by (simp_all add: isNodeHex_valid)
  then obtain x y where x: "ToBytes (VHexString a) = Inr x" "length x = 32"
    and y: "ToBytes (VHexString b) = Inr y" "length y = 32"
    by (auto simp: IsValidMerkleNode_bytes)
  from ab have np: "\<not> isPlainText (VHexString a)" "\<not> isPlainText (VHexString b)"
    by (simp_all add: isNodeHex_not_plain)
  show "StandardNodeHash K (VHexString a) (VHexString b) =
        StandardNodeHash K (VHexString b) (VHexString a)"
    using StandardNodeHash_commute[OF x(1) np(1) y(1) np(2)] x(2) y(2) by simp
  have "\<exists>c. Concat (sortPair (VHexString a) (VHexString b)) = Inr c"
    using x(1) y(1) by (auto simp: sortPair_def)
  then obtain c where "StandardNodeHash K (VHexString a) (VHexString b) =
      CHR ''0'' # CHR ''x'' # hex_EncodeToString (K c)"
    by (auto simp: StandardNodeHash_def keccak256HashedData_def)
  with assms show "isNodeHex (StandardNodeHash K (VHexString a) (VHexString b))"
    by (simp add: isCanonicalHash_isNodeHex digest_hex_canonical)
qed

text \<open>The shape \<^verbatim>\<open>MakeMerkleTree\<close> gives a tree of \<open>n\<close> leaves.\<close>

definition builtTree :: "NodeHash \<Rightarrow> nat \<Rightarrow> HexString list \<Rightarrow> bool" where
  "builtTree nodeHash n tree =
     (1 \<le> n \<and> length tree = 2 * n - 1 \<and>
      (\<forall>i<n - 1. tree ! i =
         nodeHash (VHexString (tree ! (2 * i + 1))) (VHexString (tree ! (2 * i + 2)))))"

lemma builtTree_nodes:
  assumes bt: "builtTree nodeHash n tree" and pr: "properNodeHash nodeHash"
    and lv: "\<forall>j. n - 1 \<le> j \<and> j < length tree \<longrightarrow> isNodeHex (tree ! j)"
  shows "i < length tree \<Longrightarrow> isNodeHex (tree ! i)"
proof (induction i rule: measure_induct_rule[of "\<lambda>i. length tree - i"])
  case (less i)
  show ?case
  proof (cases "n - 1 \<le> i")
    case True
    with lv less.prems show ?thesis by simp
  next
    case False
    then have i: "i < n - 1" by simp
    from bt have len: "length tree = 2 * n - 1" by (simp add: builtTree_def)
    from i len have c: "2 * i + 1 < length tree" "2 * i + 2 < length tree" by simp_all
    from less.IH[of "2 * i + 1"] less.IH[of "2 * i + 2"] c less.prems
    have "isNodeHex (tree ! (2 * i + 1))" "isNodeHex (tree ! (2 * i + 2))" by simp_all
    moreover from bt i have "tree ! i =
        nodeHash (VHexString (tree ! (2 * i + 1))) (VHexString (tree ! (2 * i + 2)))"
      by (simp add: builtTree_def)
    ultimately show ?thesis using pr by (simp add: properNodeHash_def)
  qed
qed

text \<open>Every node below the root hashes with its sibling to its parent.\<close>

lemma builtTree_step:
  assumes bt: "builtTree nodeHash n tree" and pr: "properNodeHash nodeHash"
    and ok: "\<forall>j<length tree. isNodeHex (tree ! j)"
    and i: "0 < i" "i < length tree" and sz: "int (length tree) \<le> 2 ^ 53"
  shows "\<exists>s p. SiblingIndex (int i) = int s \<and> ParentIndex (int i) = int p \<and>
           0 < s \<and> s < length tree \<and> p < i \<and>
           nodeHash (VHexString (tree ! i)) (VHexString (tree ! s)) = tree ! p"
proof -
  from bt have len: "length tree = 2 * n - 1" and n: "1 \<le> n"
    and rel: "\<And>k. k < n - 1 \<Longrightarrow> tree ! k =
         nodeHash (VHexString (tree ! (2 * k + 1))) (VHexString (tree ! (2 * k + 2)))"
    by (simp_all add: builtTree_def)
  define p where "p = (i - 1) div 2"
  from i sz have "ParentIndex (int i) = (int i - 1) div 2"
    by (intro ParentIndex_exact) simp_all
  also have "\<dots> = int p" using i by (simp add: p_def zdiv_int of_nat_diff)
  finally have P: "ParentIndex (int i) = int p" .
  have S: "SiblingIndex (int i) = (if even i then int i - 1 else int i + 1)"
    using i by (simp add: SiblingIndex_pos)
  have pi: "p < i" using i by (simp add: p_def) 
  show ?thesis
  proof (cases "even i")
    case True
    with i have ip: "i = 2 * p + 2" unfolding p_def by presburger
    with i len have pk: "p < n - 1" by simp
    define s where "s = i - 1"
    have s: "s = 2 * p + 1" "0 < s" "s < length tree" using ip i by (simp_all add: s_def)
    have "SiblingIndex (int i) = int s" using S True i by (simp add: s_def of_nat_diff)
    moreover have "nodeHash (VHexString (tree ! i)) (VHexString (tree ! s)) = tree ! p"
    proof -
      from ok i s have "isNodeHex (tree ! i)" "isNodeHex (tree ! s)" by simp_all
      with pr have "nodeHash (VHexString (tree ! i)) (VHexString (tree ! s)) =
          nodeHash (VHexString (tree ! s)) (VHexString (tree ! i))"
        by (simp add: properNodeHash_def)
      with rel[OF pk] ip s show ?thesis by simp
    qed
    ultimately show ?thesis using P s(2,3) pi
      by (intro exI[of _ s] exI[of _ p]) simp
  next
    case False
    with i have ip: "i = 2 * p + 1" unfolding p_def by presburger
    from False len i have "i + 1 < length tree" by presburger
    with ip len have pk: "p < n - 1" by simp
    define s where "s = i + 1"
    have s: "s = 2 * p + 2" "0 < s" "s < length tree"
      using ip \<open>i + 1 < length tree\<close> by (simp_all add: s_def)
    have "SiblingIndex (int i) = int s" using S False by (simp add: s_def)
    moreover have "nodeHash (VHexString (tree ! i)) (VHexString (tree ! s)) = tree ! p"
      using rel[OF pk] ip s by simp
    ultimately show ?thesis using P s(2,3) pi
      by (intro exI[of _ s] exI[of _ p]) simp
  qed
qed

lemma proofLoop_walk:
  assumes bt: "builtTree nodeHash n tree" and pr: "properNodeHash nodeHash"
    and ok: "\<forall>j<length tree. isNodeHex (tree ! j)"
    and sz: "int (length tree) \<le> 2 ^ 53"
  shows "i < length tree \<Longrightarrow>
    \<exists>P. proofLoop (map VHexString tree) (int i) acc = Inr (acc @ P) \<and>
        (\<forall>x\<in>set P. isNodeHex x) \<and>
        foldProof nodeHash (tree ! i) (map VHexString P) = Inr (tree ! 0)"
proof (induction i arbitrary: acc rule: less_induct)
  case (less i)
  show ?case
  proof (cases "i = 0")
    case True
    have "proofLoop (map VHexString tree) (int 0) acc = Inr acc"
      by (subst proofLoop.simps) simp
    with True show ?thesis by simp
  next
    case False
    then have i: "0 < i" by simp
    from builtTree_step[OF bt pr ok i less.prems sz] obtain s p where sp:
      "SiblingIndex (int i) = int s" "ParentIndex (int i) = int p"
      "0 < s" "s < length tree" "p < i"
      "nodeHash (VHexString (tree ! i)) (VHexString (tree ! s)) = tree ! p"
      by blast
    from ok sp(4) have hs: "isNodeHex (tree ! s)" by simp
    have step: "proofLoop (map VHexString tree) (int i) acc =
        proofLoop (map VHexString tree) (int p) (acc @ [tree ! s])"
      using i sp(1,2,4) hs by (subst proofLoop.simps) (simp add: isNodeHex_ToHex_text)
    from sp(5) less.prems have "p < length tree" by simp
    from less.IH[OF sp(5) this, of "acc @ [tree ! s]"] obtain P where P:
      "proofLoop (map VHexString tree) (int p) (acc @ [tree ! s]) = Inr ((acc @ [tree ! s]) @ P)"
      "\<forall>x\<in>set P. isNodeHex x"
      "foldProof nodeHash (tree ! p) (map VHexString P) = Inr (tree ! 0)"
      by blast
    have "foldProof nodeHash (tree ! i) (map VHexString (tree ! s # P)) = Inr (tree ! 0)"
      using hs sp(6) P(3) by (simp add: isNodeHex_ToHex_text)
    with step P(1,2) hs show ?thesis
      by (intro exI[of _ "tree ! s # P"]) simp
  qed
qed

lemma leaf_hashes_ToHex:
  "\<forall>v\<in>set vs. isNodeHex (leafHash v) \<Longrightarrow>
   map ToHex (map (\<lambda>v. VHexString (leafHash v)) vs) = map Inr (map leafHash vs)"
  by (induction vs) (simp_all add: isNodeHex_ToHex_text)

text \<open>The tree of leaf hashes that are hash text, under a proper node hash.\<close>

lemma MakeMerkleTree_proper:
  assumes pr: "properNodeHash nodeHash" and ne: "vs \<noteq> []"
    and lf: "\<forall>v\<in>set vs. isNodeHex (leafHash v)"
  shows "\<exists>tree. MakeMerkleTree (map (\<lambda>v. VHexString (leafHash v)) vs) nodeHash = Inr tree \<and>
           builtTree nodeHash (length vs) tree \<and>
           drop (length vs - 1) tree = map leafHash vs \<and>
           (\<forall>j<length tree. isNodeHex (tree ! j))"
proof -
  let ?hs = "map (\<lambda>v. VHexString (leafHash v)) vs"
  from ne have ne': "?hs \<noteq> []" by simp
  from MakeMerkleTree_spec[OF ne' leaf_hashes_ToHex[OF lf], of nodeHash]
  obtain tree where t: "MakeMerkleTree ?hs nodeHash = Inr tree"
    "length tree = 2 * length vs - 1" "drop (length vs - 1) tree = map leafHash vs"
    "\<forall>i<length vs - 1. tree ! i =
        nodeHash (VHexString (tree ! (2 * i + 1))) (VHexString (tree ! (2 * i + 2)))"
    by auto
  from ne have n: "1 \<le> length vs" by (cases vs) simp_all
  with t have bt: "builtTree nodeHash (length vs) tree" by (simp add: builtTree_def)
  have lv: "\<forall>j. length vs - 1 \<le> j \<and> j < length tree \<longrightarrow> isNodeHex (tree ! j)"
  proof (intro allI impI)
    fix j assume j: "length vs - 1 \<le> j \<and> j < length tree"
    define m where "m = j - (length vs - 1)"
    have jm: "length vs - 1 + m = j" using j by (simp add: m_def)
    from j have j1: "length vs - 1 \<le> j" and j2: "j < length tree" by simp_all
    have mlt: "m < length vs" using j1 j2 t(2) n unfolding m_def by linarith
    have "drop (length vs - 1) tree ! m = tree ! (length vs - 1 + m)"
      using j jm by (intro nth_drop) simp
    then have "tree ! j = map leafHash vs ! m" unfolding t(3) jm by simp
    with mlt lf show "isNodeHex (tree ! j)" by simp
  qed
  from builtTree_nodes[OF bt pr lv] t(1,3) bt show ?thesis by blast
qed

subsection \<open>C4\<close>




subsection \<open>C1\<close>

text \<open>
  C1, as amended. For every sequence of \<open>n \<ge> 1\<close> values whose leaf hashes are hash text
  (\<^verbatim>\<open>0x\<close> and 64 hex digits), and every node hash that returns hash text on hash text and
  does not depend on the order of its arguments: \<^verbatim>\<open>MakeMerkleTree\<close> over the leaf hashes
  succeeds, and for every input value \<open>v\<close>, at its recorded tree position
  \<^verbatim>\<open>len(tree) - n + k\<close>, \<^verbatim>\<open>GetProof\<close> succeeds and \<^verbatim>\<open>ProcessProof\<close> of the leaf hash and that
  proof returns the root \<^verbatim>\<open>tree[0]\<close>. The bound on \<open>n\<close> keeps every index within the range
  where \<^verbatim>\<open>ParentIndex\<close> is exact; no slice that fits in memory reaches it.
\<close>

theorem single_proof_roundtrip:
  assumes "properNodeHash nodeHash"
    and "vs \<noteq> []" and "\<forall>v\<in>set vs. isNodeHex (leafHash v)"
    and "int (length vs) \<le> 2 ^ 52"
    and "k < length vs"
  shows "\<exists>tree pf.
           MakeMerkleTree (map (\<lambda>v. VHexString (leafHash v)) vs) nodeHash = Inr tree \<and>
           GetProof (map VHexString tree) (int (length tree) - int (length vs) + int k) = Inr pf \<and>
           ProcessProof (VHexString (leafHash (vs ! k))) (map VHexString pf) nodeHash =
             Inr (tree ! 0)"
proof -
  from MakeMerkleTree_proper[OF assms(1,2,3)] obtain tree where t:
    "MakeMerkleTree (map (\<lambda>v. VHexString (leafHash v)) vs) nodeHash = Inr tree"
    "builtTree nodeHash (length vs) tree" "drop (length vs - 1) tree = map leafHash vs"
    "\<forall>j<length tree. isNodeHex (tree ! j)"
    by blast
  define n where "n = length vs"
  from t(2) have len: "length tree = 2 * n - 1" and n: "1 \<le> n"
    by (simp_all add: builtTree_def n_def)
  define i where "i = n - 1 + k"
  have i: "i < length tree" using assms(5) len n by (simp add: i_def n_def)
  have idx: "int (length tree) - int (length vs) + int k = int i"
    using len n by (simp add: i_def n_def of_nat_diff)
  have sz: "int (length tree) \<le> 2 ^ 53" using assms(4) len n by (simp add: n_def of_nat_diff)
  have leaf: "tree ! i = leafHash (vs ! k)"
  proof -
    have "tree ! i = drop (n - 1) tree ! k" using i by (simp add: i_def)
    with t(3) assms(5) show ?thesis by (simp add: n_def)
  qed
  have isleaf: "IsLeafNode (map VHexString tree) (int i)"
    using i len n by (simp add: IsLeafNode_def IsInternalNode_def IsTreeNode_def
        LeftChildIndex_def i_def)
  from proofLoop_walk[OF t(2) assms(1) t(4) sz i, of "[]"] obtain P where P:
    "proofLoop (map VHexString tree) (int i) [] = Inr P" "\<forall>x\<in>set P. isNodeHex x"
    "foldProof nodeHash (tree ! i) (map VHexString P) = Inr (tree ! 0)"
    by auto
  have gp: "GetProof (map VHexString tree) (int i) = Inr P"
    using isleaf P(1) by (simp add: GetProof_def CheckLeafNode_def)
  have lh: "isNodeHex (leafHash (vs ! k))" using assms(3,5) by simp
  from i have "0 < length tree" by linarith
  with t(4) have root: "isNodeHex (tree ! 0)" by blast
  have chk: "checkProofNodes (map VHexString P) = None"
    using P(2) by (simp add: checkProofNodes_iff isNodeHex_valid)
  have "ProcessProof (VHexString (leafHash (vs ! k))) (map VHexString P) nodeHash = Inr (tree ! 0)"
    using lh chk P(3) leaf root
    by (simp add: ProcessProof_def CheckValidMerkleNode_def isNodeHex_valid isNodeHex_ToHex_text)
  with t(1) gp idx show ?thesis by auto
qed

theorem single_proof_roundtrip_witness:
  "properNodeHash (StandardNodeHash sampleDigest) \<and>
   isNodeHex (StandardLeafHash sampleDigest (VString ''alice'')) \<and>
   isNodeHex (StandardLeafHash sampleDigest (VString ''bob'')) \<and>
   isNodeHex (StandardLeafHash sampleDigest (VString ''carol'')) \<and>
   (\<exists>tree pf.
      MakeMerkleTree (map (\<lambda>v. VHexString (StandardLeafHash sampleDigest v))
        [VString ''alice'', VString ''bob'', VString ''carol'']) (StandardNodeHash sampleDigest) =
        Inr tree \<and>
      GetProof (map VHexString tree) (int (length tree) - 3 + 1) = Inr pf \<and>
      ProcessProof (VHexString (StandardLeafHash sampleDigest (VString ''bob'')))
        (map VHexString pf) (StandardNodeHash sampleDigest) = Inr (tree ! 0))"
proof -
  let ?vs = "[VString ''alice'', VString ''bob'', VString ''carol'']"
  have a: "properNodeHash (StandardNodeHash sampleDigest)"
    by (rule StandardNodeHash_proper) (simp add: sampleDigest_length)
  have b: "\<forall>v\<in>set ?vs. isNodeHex (StandardLeafHash sampleDigest v)" by code_simp
  have c: "?vs \<noteq> []" "int (length ?vs) \<le> 2 ^ 52" "(1::nat) < length ?vs" by simp_all
  from single_proof_roundtrip[OF a c(1) b c(2,3)] a b show ?thesis by simp
qed

text \<open>
  The claim as stated fails on a value of a type the packed encoder does not support (the
  Go \<^verbatim>\<open>int\<close> 5, say): \<^verbatim>\<open>StandardLeafHash\<close> returns the empty string whatever the digest
  function is, the tree is built with the leaf \<^verbatim>\<open>0x\<close>, and \<^verbatim>\<open>ProcessProof\<close> rejects the leaf
  hash as a node that is not 32 bytes long.
\<close>

theorem single_proof_unsupported_value:
  "StandardLeafHash sampleDigest VOther = '''' \<and>
   MakeMerkleTree [VHexString (StandardLeafHash sampleDigest VOther)] (StandardNodeHash sampleDigest) =
     Inr [''0x''] \<and>
   GetProof [VHexString ''0x''] (int (length [''0x'']) - int (length [VOther]) + 0) = Inr [] \<and>
   ProcessProof (VHexString (StandardLeafHash sampleDigest VOther)) [] (StandardNodeHash sampleDigest) =
     Inl ErrInvalidNode"
  by code_simp

section \<open>Multiproofs\<close>










lemma ToHex_errors: "ToHex v = Inl e \<Longrightarrow> e = ErrInvalidHexString \<or> e = ErrUnsupportedType"
  by (cases v) (auto simp: ToHex_text_def split: sum.splits)

lemma multiProofLoop_errors:
  "multiProofLoop T stack pf flags = Inl e \<Longrightarrow>
   e = PanicIndexOutOfRange \<or> (\<exists>node\<in>set T. ToHex node = Inl e)"
proof (induction T stack pf flags rule: multiProofLoop.induct)
  case (1 T pf flags)
  then show ?case by (simp add: multiProofLoop.simps)
next
  case (2 T j stack pf flags)
  show ?case
  proof (cases "j > 0")
    case False
    with "2.prems" show ?thesis by (simp add: multiProofLoop.simps)
  next
    case True
    show ?thesis
    proof (cases "length stack > 0 \<and> SiblingIndex j = hd stack")
      case c: True
      with True "2.prems" have
        "multiProofLoop T (tl stack @ [ParentIndex j]) pf (flags @ [True]) = Inl e"
        by (subst (asm) multiProofLoop.simps) simp
      with "2.IH"(1)[OF True c] show ?thesis by blast
    next
      case c: False
      from "2.prems" True c have eq:
        "(case elemAt T (SiblingIndex j) of
            Inl e \<Rightarrow> Inl e
          | Inr node \<Rightarrow>
             (case ToHex node of
                Inl e \<Rightarrow> Inl e
              | Inr proofVal \<Rightarrow>
                  multiProofLoop T (stack @ [ParentIndex j]) (pf @ [proofVal])
                    (flags @ [False]))) = Inl e"
        by (subst (asm) multiProofLoop.simps) (simp only: if_True if_False)
      show ?thesis
      proof (cases "elemAt T (SiblingIndex j)")
        case (Inl e')
        with eq have "e = PanicIndexOutOfRange" by (auto simp: elemAt_def split: if_splits)
        then show ?thesis by simp
      next
        case (Inr node)
        then have mem: "node \<in> set T" by (auto simp: elemAt_def split: if_splits)
        show ?thesis
        proof (cases "ToHex node")
          case (Inl e')
          with eq Inr mem show ?thesis by auto
        next
          case r: (Inr proofVal)
          with eq Inr have "multiProofLoop T (stack @ [ParentIndex j]) (pf @ [proofVal])
              (flags @ [False]) = Inl e" by simp
          with "2.IH"(2)[OF True c Inr r] show ?thesis by blast
        qed
      qed
    qed
  qed
qed

lemma leavesOf_errors:
  "leavesOf T indices = Inl e \<Longrightarrow> e = PanicIndexOutOfRange \<or> (\<exists>node\<in>set T. ToHex node = Inl e)"
proof (induction indices)
  case Nil
  then show ?case by simp
next
  case (Cons i indices)
  show ?case
  proof (cases "elemAt T i")
    case (Inl e')
    with Cons.prems have "e = PanicIndexOutOfRange" by (auto simp: elemAt_def split: if_splits)
    then show ?thesis by simp
  next
    case (Inr node)
    then have mem: "node \<in> set T" by (auto simp: elemAt_def split: if_splits)
    show ?thesis
    proof (cases "ToHex node")
      case (Inl e')
      with Cons.prems Inr mem show ?thesis by auto
    next
      case r: (Inr h)
      with Cons.prems Inr have "leavesOf T indices = Inl e" by (auto split: sum.splits)
      with Cons.IH show ?thesis by blast
    qed
  qed
qed

lemma GetMultiProof_errors:
  assumes "indices \<noteq> []" and "GetMultiProof T indices = Inl e"
  shows "e = PanicIndexOutOfRange \<or> (\<exists>node\<in>set T. ToHex node = Inl e)"
proof (cases "multiProofLoop T indices [] []")
  case (Inl e')
  with assms have "e' = e" by (simp add: GetMultiProof_def)
  with Inl multiProofLoop_errors show ?thesis by blast
next
  case (Inr r)
  with assms have "leavesOf T indices = Inl e"
    by (cases r) (auto simp: GetMultiProof_def split: sum.splits)
  with leavesOf_errors show ?thesis by blast
qed

lemma leavesOf_out_of_range:
  assumes "\<forall>node\<in>set T. \<exists>h. ToHex node = Inr h" and "\<exists>i\<in>set indices. \<not> IsTreeNode T i"
  shows "leavesOf T indices = Inl PanicIndexOutOfRange"
proof (cases "leavesOf T indices")
  case (Inl e)
  with leavesOf_errors[OF Inl] assms(1) show ?thesis by force
next
  case (Inr hs)
  have "leavesOf T indices = Inr hs \<Longrightarrow> \<forall>i\<in>set indices. IsTreeNode T i" for hs
  proof (induction indices arbitrary: hs)
    case Nil
    then show ?case by simp
  next
    case (Cons i indices)
    then show ?case
      by (auto simp: elemAt_def IsTreeNode_def split: sum.splits if_splits)
  qed
  with Inr assms(2) show ?thesis by blast
qed

lemma sibling_in_range:
  assumes "0 < j" "j < L" "odd L"
  shows "0 < SiblingIndex j \<and> SiblingIndex j < L"
proof (cases "even j")
  case True
  with assms have "2 \<le> j" by presburger
  with True assms show ?thesis by (simp add: SiblingIndex_pos)
next
  case False
  with assms have "j + 1 < L" by presburger
  with False assms show ?thesis by (simp add: SiblingIndex_pos)
qed

lemma multiProofLoop_total:
  assumes hex: "\<forall>node\<in>set tree. \<exists>h. ToHex node = Inr h" and odd: "odd (length tree)"
  shows "T = tree \<Longrightarrow> \<forall>x\<in>set stack. IsTreeNode tree x \<Longrightarrow>
         \<exists>r. multiProofLoop T stack pf flags = Inr r"
proof (induction T stack pf flags rule: multiProofLoop.induct)
  case (1 T pf flags)
  then show ?case by (simp add: multiProofLoop.simps)
next
  case (2 T j stack pf flags)
  note T = "2.prems"(1)
  from "2.prems"(2) have jr: "0 \<le> j" "j < int (length tree)"
    and sr: "\<forall>x\<in>set stack. IsTreeNode tree x" by (simp_all add: IsTreeNode_def)
  show ?case
  proof (cases "j > 0")
    case False
    then show ?thesis by (simp add: multiProofLoop.simps)
  next
    case True
    from ParentIndex_bounds[OF True] jr have p: "IsTreeNode tree (ParentIndex j)"
      by (simp add: IsTreeNode_def)
    from odd have "odd (int (length tree))" by simp
    from sibling_in_range[OF True jr(2) this]
    have s: "0 < SiblingIndex j" "SiblingIndex j < int (length tree)" by simp_all
    show ?thesis
    proof (cases "length stack > 0 \<and> SiblingIndex j = hd stack")
      case c: True
      have r: "\<forall>x\<in>set (tl stack @ [ParentIndex j]). IsTreeNode tree x"
        using sr p c by (cases stack) auto
      from "2.IH"(1)[OF True c T r] True c show ?thesis
        by (subst multiProofLoop.simps) simp
    next
      case c: False
      define node where "node = tree ! nat (SiblingIndex j)"
      have e: "elemAt T (SiblingIndex j) = Inr node"
        using s T by (simp add: elemAt_def node_def)
      from s have "nat (SiblingIndex j) < length tree" by simp
      then have "node \<in> set tree" by (simp add: node_def)
      with hex obtain h where h: "ToHex node = Inr h" by blast
      have r: "\<forall>x\<in>set (stack @ [ParentIndex j]). IsTreeNode tree x"
        using sr p by auto
      from "2.IH"(2)[OF True c e h T r] True c e h show ?thesis
        by (subst multiProofLoop.simps) (auto simp del: ToHex.simps)
    qed
  qed
qed

lemma leavesOf_total:
  assumes "\<forall>node\<in>set T. \<exists>h. ToHex node = Inr h" and "\<forall>i\<in>set indices. IsTreeNode T i"
  shows "\<exists>hs. leavesOf T indices = Inr hs"
proof (cases "leavesOf T indices")
  case (Inl e)
  from leavesOf_errors[OF Inl] assms(1) have e: "e = PanicIndexOutOfRange" by force
  have "leavesOf T indices = Inl PanicIndexOutOfRange \<Longrightarrow> \<exists>i\<in>set indices. \<not> IsTreeNode T i"
  proof (induction indices)
    case Nil
    then show ?case by simp
  next
    case (Cons i indices)
    show ?case
    proof (cases "IsTreeNode T i")
      case False
      then show ?thesis by simp
    next
      case True
      then have "nat i < length T" by (auto simp add: IsTreeNode_def)
      with True have el: "elemAt T i = Inr (T ! nat i)" "T ! nat i \<in> set T"
        by (simp_all add: elemAt_def IsTreeNode_def)
      with assms(1) obtain h where "ToHex (T ! nat i) = Inr h" by blast
      with Cons.prems el have "leavesOf T indices = Inl PanicIndexOutOfRange"
        by (auto split: sum.splits)
      with Cons.IH show ?thesis by simp
    qed
  qed
  with Inl e assms(2) show ?thesis by blast
next
  case (Inr hs)
  then show ?thesis by blast
qed


subsection \<open>C2\<close>



subsection \<open>C10\<close>

text \<open>
  C10. \<^verbatim>\<open>GetMultiProof\<close> validates nothing about its index list but that it is not empty.
  For a non-empty list it never returns \<^verbatim>\<open>ErrNotLeafNode\<close> or \<^verbatim>\<open>ErrInvalidIndex\<close>. On a
  tree of odd length whose nodes have hex forms, every list of indices within the tree is
  accepted, internal nodes included; an index outside the tree makes a slice access
  (\<^verbatim>\<open>tree[s]\<close> or \<^verbatim>\<open>tree[idx]\<close>) panic, and no error value is returned.
\<close>

theorem GetMultiProof_no_index_validation:
  "(indices \<noteq> [] \<longrightarrow>
      GetMultiProof tree indices \<noteq> Inl ErrNotLeafNode \<and>
      GetMultiProof tree indices \<noteq> Inl ErrInvalidIndex) \<and>
   (indices \<noteq> [] \<and> (\<forall>node\<in>set tree. \<exists>h. ToHex node = Inr h) \<and> odd (length tree) \<and>
    (\<forall>i\<in>set indices. IsTreeNode tree i) \<longrightarrow>
      (\<exists>mp. GetMultiProof tree indices = Inr mp)) \<and>
   (indices \<noteq> [] \<and> (\<forall>node\<in>set tree. \<exists>h. ToHex node = Inr h) \<and>
    (\<exists>i\<in>set indices. \<not> IsTreeNode tree i) \<longrightarrow>
      GetMultiProof tree indices = Inl PanicIndexOutOfRange)"
proof (intro conjI impI)
  assume ne: "indices \<noteq> []"
  have "e \<noteq> ErrNotLeafNode \<and> e \<noteq> ErrInvalidIndex" if "GetMultiProof tree indices = Inl e" for e
    using GetMultiProof_errors[OF ne that] by (auto dest: ToHex_errors)
  then show "GetMultiProof tree indices \<noteq> Inl ErrNotLeafNode"
    and "GetMultiProof tree indices \<noteq> Inl ErrInvalidIndex" by blast+
next
  assume h: "indices \<noteq> [] \<and> (\<forall>node\<in>set tree. \<exists>h. ToHex node = Inr h) \<and> odd (length tree) \<and>
    (\<forall>i\<in>set indices. IsTreeNode tree i)"
  then have hex: "\<forall>node\<in>set tree. \<exists>h. ToHex node = Inr h" and od: "odd (length tree)"
    and rg: "\<forall>i\<in>set indices. IsTreeNode tree i" by simp_all
  from multiProofLoop_total[OF hex od refl rg, of "[]" "[]"] obtain r where
    "multiProofLoop tree indices [] [] = Inr r" by blast
  moreover from leavesOf_total[OF hex rg] obtain hs where "leavesOf tree indices = Inr hs"
    by blast
  ultimately show "\<exists>mp. GetMultiProof tree indices = Inr mp"
    using h by (cases r) (simp add: GetMultiProof_def)
next
  assume h: "indices \<noteq> [] \<and> (\<forall>node\<in>set tree. \<exists>h. ToHex node = Inr h) \<and>
    (\<exists>i\<in>set indices. \<not> IsTreeNode tree i)"
  then have ne: "indices \<noteq> []" and hex: "\<forall>node\<in>set tree. \<exists>h. ToHex node = Inr h"
    and out: "\<exists>i\<in>set indices. \<not> IsTreeNode tree i" by simp_all
  show "GetMultiProof tree indices = Inl PanicIndexOutOfRange"
  proof (cases "multiProofLoop tree indices [] []")
    case (Inl e)
    from multiProofLoop_errors[OF Inl] hex have "e = PanicIndexOutOfRange" by force
    with Inl ne show ?thesis by (simp add: GetMultiProof_def)
  next
    case (Inr r)
    with leavesOf_out_of_range[OF hex out] ne show ?thesis
      by (cases r) (simp add: GetMultiProof_def)
  qed
qed

theorem GetMultiProof_no_index_validation_witness:
  "IsInternalNode [VHexString ''0x01'', VHexString ''0x02'', VHexString ''0x03''] 0 \<and>
   GetMultiProof [VHexString ''0x01'', VHexString ''0x02'', VHexString ''0x03''] [0] =
     Inr \<lparr>Leaves = [''0x01''], Proof = [], ProofFlags = []\<rparr> \<and>
   (\<exists>mp. GetMultiProof [VHexString ''0x01'', VHexString ''0x02'', VHexString ''0x03''] [0] = Inr mp) \<and>
   \<not> IsTreeNode [VHexString ''0x01'', VHexString ''0x02'', VHexString ''0x03''] 5 \<and>
   GetMultiProof [VHexString ''0x01'', VHexString ''0x02'', VHexString ''0x03''] [5] =
     Inl PanicIndexOutOfRange \<and>
   GetMultiProof [VHexString ''0x01'', VHexString ''0x02'', VHexString ''0x03''] [5] \<noteq>
     Inl ErrInvalidIndex"
proof -
  let ?T = "[VHexString ''0x01'', VHexString ''0x02'', VHexString ''0x03'']"
  have a: "IsInternalNode ?T 0" by code_simp
  have b: "GetMultiProof ?T [0] = Inr \<lparr>Leaves = [''0x01''], Proof = [], ProofFlags = []\<rparr>"
    by code_simp
  have c: "\<not> IsTreeNode ?T 5" by code_simp
  have hex: "\<forall>node\<in>set ?T. \<exists>h. ToHex node = Inr h"
    by (simp add: ToHex_text_def TrimPrefix_0x HasPrefix_def fromHexChar_def)
  have rg: "\<forall>i\<in>set [0]. IsTreeNode ?T i" by (simp add: IsTreeNode_def)
  have od: "odd (length ?T)" by simp
  from GetMultiProof_no_index_validation[of "[0]" ?T] hex rg od
  have 1: "\<exists>mp. GetMultiProof ?T [0] = Inr mp" by simp
  have out: "\<exists>i\<in>set [5]. \<not> IsTreeNode ?T i" using c by simp
  from GetMultiProof_no_index_validation[of "[5]" ?T] hex out
  have 2: "GetMultiProof ?T [5] = Inl PanicIndexOutOfRange"
    and 3: "GetMultiProof ?T [5] \<noteq> Inl ErrInvalidIndex" by simp_all
  from a b c 1 2 3 show ?thesis by blast
qed

section \<open>Sorted leaves\<close>

text \<open>
  \<^verbatim>\<open>sort.Slice\<close> belongs to the standard library and is a parameter of \<^verbatim>\<open>PrepareMerkleTree\<close>
  here. Its contract, on one input: the result is a rearrangement of the input in which no
  element is less than an earlier one. The library does not promise a stable sort.
\<close>

definition sortContract ::
  "(('a \<Rightarrow> 'a \<Rightarrow> bool) \<Rightarrow> 'a list \<Rightarrow> 'a list) \<Rightarrow> ('a \<Rightarrow> 'a \<Rightarrow> bool) \<Rightarrow> 'a list \<Rightarrow> bool" where
  "sortContract sort_Slice lessFn xs =
     (mset (sort_Slice lessFn xs) = mset xs \<and>
      sorted_wrt (\<lambda>a b. \<not> lessFn b a) (sort_Slice lessFn xs))"

text \<open>An insertion sort, one function that meets the contract; the closed examples sort
  with it. Every element in turn moves left past the elements it is less than; the sorted
  part is kept in reverse.\<close>

fun insertRev :: "('a \<Rightarrow> 'a \<Rightarrow> bool) \<Rightarrow> 'a \<Rightarrow> 'a list \<Rightarrow> 'a list" where
  "insertRev lessFn x [] = [x]"
| "insertRev lessFn x (p # ps) = (if lessFn x p then p # insertRev lessFn x ps else x # p # ps)"

definition insertionSort :: "('a \<Rightarrow> 'a \<Rightarrow> bool) \<Rightarrow> 'a list \<Rightarrow> 'a list" where
  "insertionSort lessFn xs = rev (foldl (\<lambda>acc x. insertRev lessFn x acc) [] xs)"

text \<open>The number \<^verbatim>\<open>Compare\<close> reads off a hash.\<close>

definition hashValue :: "HexString \<Rightarrow> int" where
  "hashValue h = bigInt_of_hex (TrimPrefix h ''0x'')"

lemma hashValues_Hash: "map Hash (hashValues leafHash vs) = map leafHash vs"
proof -
  have "map Hash (hashValues leafHash vs) = map (\<lambda>p. leafHash (snd p)) (enumerate 0 vs)"
    by (simp add: hashValues_def case_prod_beta)
  also have "\<dots> = map (leafHash \<circ> snd) (enumerate 0 vs)" by (simp add: comp_def)
  also have "\<dots> = map leafHash (map snd (enumerate 0 vs))" by (simp only: map_map)
  also have "\<dots> = map leafHash vs" by simp
  finally show ?thesis .
qed

lemma hashValues_index:
  "x \<in> set (hashValues leafHash vs) \<Longrightarrow> 0 \<le> ValueIndex x \<and> ValueIndex x < int (length vs)"
  by (auto simp: hashValues_def in_set_enumerate_eq)

lemma length_hashValues [simp]: "length (hashValues leafHash vs) = length vs"
  by (simp add: hashValues_def)

lemma ToHex_text_form: "ToHex_text h = Inr t \<Longrightarrow> t = ''0x'' @ TrimPrefix h ''0x''"
  by (auto simp: ToHex_text_def split: sum.splits)

lemma hashLess_value:
  assumes "ToHex_text (Hash x) = Inr s" "ToHex_text (Hash y) = Inr t"
  shows "hashLess x y = (hashValue (Hash x) < hashValue (Hash y))"
  using assms ToHex_text_form[OF assms(1)] ToHex_text_form[OF assms(2)]
  by (simp add: hashLess_def Compare_def bigInt_Cmp_def hashValue_def)

lemma sorted_perm_unique:
  fixes f :: "'a \<Rightarrow> int"
  assumes "mset xs = mset ys" "sorted (map f xs)" "sorted (map f ys)" "inj_on f (set xs)"
  shows "xs = ys"
proof -
  from assms(1) have m: "mset (map f ys) = mset (map f xs)" by (metis mset_map)
  have "sort (map f xs) = map f xs" using assms(2) by (simp add: sorted_sort_id)
  moreover have "sort (map f xs) = map f ys" using m assms(3) by (rule properties_for_sort)
  ultimately have "map f xs = map f ys" by simp
  moreover from assms(1) have "set ys = set xs" by (metis mset_eq_setD)
  ultimately show ?thesis using assms(4) by (simp add: inj_on_map_eq_map)
qed

lemma assignIndices_ok:
  "\<forall>hv\<in>set hvs. 0 \<le> ValueIndex hv \<and> ValueIndex hv < int (length ivs) \<Longrightarrow>
   0 \<le> lenTree - lenHashed + k \<Longrightarrow> lenTree - lenHashed + k + int (length hvs) \<le> lenTree \<Longrightarrow>
   \<exists>r. assignIndices lenTree lenHashed hvs k ivs = Inr r \<and> length r = length ivs"
proof (induction hvs arbitrary: k ivs)
  case Nil
  then show ?case by simp
next
  case (Cons hv rest)
  let ?ivs = "ivs[nat (ValueIndex hv) := \<lparr>IValue = Value hv, TreeIndex = lenTree - lenHashed + k\<rparr>]"
  have "\<exists>r. assignIndices lenTree lenHashed rest (k + 1) ?ivs = Inr r \<and> length r = length ?ivs"
    using Cons.prems by (intro Cons.IH) auto
  with Cons.prems show ?case by (auto simp: Let_def)
qed

text \<open>The sorted leaf hashes, whatever sort is used, are the stable sort by value of the
  hashes of the values, when hashes of the same value are the same text.\<close>

lemma sorted_hashes:
  assumes hex: "\<forall>v\<in>set vs. \<exists>t. ToHex_text (leafHash v) = Inr t"
    and tie: "\<forall>v\<in>set vs. \<forall>w\<in>set vs. hashValue (leafHash v) = hashValue (leafHash w) \<longrightarrow>
                leafHash v = leafHash w"
    and perm: "mset vs' = mset vs"
    and c: "sortContract sort_Slice hashLess (hashValues leafHash vs')"
  shows "map Hash (sort_Slice hashLess (hashValues leafHash vs')) =
           sort_key hashValue (map leafHash vs)"
proof -
  let ?S = "sort_Slice hashLess (hashValues leafHash vs')"
  let ?R = "map Hash ?S"
  let ?L = "sort_key hashValue (map leafHash vs)"
  from c have ms: "mset ?S = mset (hashValues leafHash vs')"
    and so: "sorted_wrt (\<lambda>a b. \<not> hashLess b a) ?S" by (simp_all add: sortContract_def)
  have "mset ?R = mset (map Hash (hashValues leafHash vs'))" using ms by (metis mset_map)
  also have "\<dots> = mset (map leafHash vs')" by (simp add: hashValues_Hash)
  also have "\<dots> = mset (map leafHash vs)" using perm by (metis mset_map)
  finally have mR: "mset ?R = mset (map leafHash vs)" .
  then have sR: "set ?R = leafHash ` set vs" by (metis mset_eq_setD set_map)
  have ok: "\<exists>t. ToHex_text (Hash x) = Inr t" if "x \<in> set ?S" for x
  proof -
    from that have "Hash x \<in> set ?R" by simp
    with sR hex show ?thesis by auto
  qed
  have "sorted_wrt (\<lambda>a b. hashValue (Hash a) \<le> hashValue (Hash b)) ?S"
  proof (rule sorted_wrt_mono_rel[OF _ so])
    fix a b assume "a \<in> set ?S" "b \<in> set ?S" "\<not> hashLess b a"
    moreover from this ok obtain s t where "ToHex_text (Hash b) = Inr s" "ToHex_text (Hash a) = Inr t"
      by blast
    ultimately show "hashValue (Hash a) \<le> hashValue (Hash b)"
      by (simp add: hashLess_value)
  qed
  then have 1: "sorted (map hashValue ?R)" by (simp add: sorted_map comp_def)
  have 2: "sorted (map hashValue ?L)" by simp
  have 3: "mset ?R = mset ?L" using mR by simp
  have 4: "inj_on hashValue (set ?R)" unfolding sR using tie by (auto simp: inj_on_def)
  from sorted_perm_unique[OF 3 1 2 4] show ?thesis .
qed

lemma lower_digits_inj:
  "list_all isLowerHexDigit t \<Longrightarrow> list_all isLowerHexDigit t' \<Longrightarrow>
   map fromHexChar t = map fromHexChar t' \<Longrightarrow> t = t'"
proof (induction t arbitrary: t')
  case Nil
  then show ?case by simp
next
  case (Cons c t)
  then obtain c' u where t': "t' = c' # u" by (cases t') auto
  with Cons.prems have "c = c'" by (auto intro: fromHexChar_lower_inj)
  moreover from Cons.prems t' have "t = u" by (intro Cons.IH) auto
  ultimately show ?case using t' by simp
qed

text \<open>Canonical hashes of the same value are the same text.\<close>

lemma canonical_hash_value_inj:
  assumes h: "isCanonicalHash h" and h': "isCanonicalHash h'"
    and eq: "hashValue h = hashValue h'"
  shows "h = h'"
proof -
  let ?t = "drop 2 h" and ?t' = "drop 2 h'"
  from h h' have p: "HasPrefix h ''0x''" "HasPrefix h' ''0x''"
    and len: "length ?t = length ?t'"
    and lo: "list_all isLowerHexDigit ?t" "list_all isLowerHexDigit ?t'"
    by (simp_all add: isCanonicalHash_def)
  from lo have dg: "list_all isHexDigit ?t" "list_all isHexDigit ?t'"
    by (auto simp: list_all_iff lower_is_hex)
  then obtain v v' where v: "scanHex 0 ?t = Some v" "scanHex 0 ?t' = Some v'"
    using scanHex_ok by blast
  from eq p have "bigInt_of_hex ?t = bigInt_of_hex ?t'"
    by (simp add: hashValue_def TrimPrefix_0x)
  with v have "v = v'" by (simp add: bigInt_of_hex_scan)
  with v len have "map fromHexChar ?t = map fromHexChar ?t'" using scanHex_inj by blast
  with lo have "?t = ?t'" by (rule lower_digits_inj)
  with HasPrefix_0x[OF p(1)] HasPrefix_0x[OF p(2)] show ?thesis by simp
qed

lemma set_insertRev [simp]: "set (insertRev lessFn x ps) = insert x (set ps)"
  by (induction ps) auto

lemma mset_insertRev [simp]: "mset (insertRev lessFn x ps) = add_mset x (mset ps)"
  by (induction ps) auto

lemma insertRev_sorted:
  fixes f :: "'a \<Rightarrow> int"
  assumes "\<forall>p\<in>set ps. lessFn x p = (f x < f p)"
    and "sorted_wrt (\<lambda>a b. f b \<le> f a) ps"
  shows "sorted_wrt (\<lambda>a b. f b \<le> f a) (insertRev lessFn x ps)"
  using assms by (induction ps) (auto simp: not_less)

lemma foldl_insertRev:
  fixes f :: "'a \<Rightarrow> int"
  assumes "\<forall>a\<in>set (acc @ xs). \<forall>b\<in>set (acc @ xs). lessFn a b = (f a < f b)"
    and "sorted_wrt (\<lambda>a b. f b \<le> f a) acc"
  shows "sorted_wrt (\<lambda>a b. f b \<le> f a) (foldl (\<lambda>acc x. insertRev lessFn x acc) acc xs) \<and>
         mset (foldl (\<lambda>acc x. insertRev lessFn x acc) acc xs) = mset acc + mset xs"
  using assms
proof (induction xs arbitrary: acc)
  case Nil
  then show ?case by simp
next
  case (Cons x xs)
  have 1: "sorted_wrt (\<lambda>a b. f b \<le> f a) (insertRev lessFn x acc)"
    using Cons.prems by (intro insertRev_sorted) auto
  have 2: "\<forall>a\<in>set (insertRev lessFn x acc @ xs). \<forall>b\<in>set (insertRev lessFn x acc @ xs).
             lessFn a b = (f a < f b)"
    using Cons.prems(1) by auto
  from Cons.IH[OF 2 1] show ?case by simp
qed

text \<open>The insertion sort meets the contract of a sort when \<open>lessFn\<close> compares a key.\<close>

lemma insertionSort_contract:
  fixes f :: "'a \<Rightarrow> int"
  assumes "\<forall>a\<in>set xs. \<forall>b\<in>set xs. lessFn a b = (f a < f b)"
  shows "sortContract insertionSort lessFn xs"
proof -
  let ?r = "foldl (\<lambda>acc x. insertRev lessFn x acc) [] xs"
  from foldl_insertRev[of "[]" xs lessFn f] assms
  have s: "sorted_wrt (\<lambda>a b. f b \<le> f a) ?r" and m: "mset ?r = mset xs" by simp_all
  from m have st: "set ?r = set xs" by (metis mset_eq_setD)
  have "sorted_wrt (\<lambda>a b. \<not> lessFn a b) ?r"
    by (rule sorted_wrt_mono_rel[OF _ s]) (use assms st in auto)
  then have "sorted_wrt (\<lambda>a b. \<not> lessFn b a) (rev ?r)" by (simp add: sorted_wrt_rev)
  with m show ?thesis by (simp add: sortContract_def insertionSort_def)
qed

lemma insertionSort_hashes:
  assumes "\<forall>v\<in>set vs. \<exists>t. ToHex_text (leafHash v) = Inr t"
  shows "sortContract insertionSort hashLess (hashValues leafHash vs)"
proof (rule insertionSort_contract[where f = "\<lambda>x. hashValue (Hash x)"], intro ballI)
  fix a b assume "a \<in> set (hashValues leafHash vs)" "b \<in> set (hashValues leafHash vs)"
  then have "Hash a \<in> set (map Hash (hashValues leafHash vs))"
    "Hash b \<in> set (map Hash (hashValues leafHash vs))" by simp_all
  then have "Hash a \<in> leafHash ` set vs" "Hash b \<in> leafHash ` set vs"
    by (simp_all add: hashValues_Hash)
  with assms have "\<exists>s. ToHex_text (Hash a) = Inr s" "\<exists>t. ToHex_text (Hash b) = Inr t"
    by auto
  then obtain s t where "ToHex_text (Hash a) = Inr s" "ToHex_text (Hash b) = Inr t"
    by blast
  then show "hashLess a b = (hashValue (Hash a) < hashValue (Hash b))" by (rule hashLess_value)
qed

text \<open>One build with sorted leaves.\<close>

lemma PrepareMerkleTree_sorted:
  assumes srt: "SortLeaves options" and ne: "vs \<noteq> []"
    and hex: "\<forall>v\<in>set vs. \<exists>t. ToHex_text (leafHash v) = Inr t"
    and tie: "\<forall>v\<in>set vs. \<forall>w\<in>set vs. hashValue (leafHash v) = hashValue (leafHash w) \<longrightarrow>
                leafHash v = leafHash w"
    and perm: "mset vs' = mset vs"
    and c: "sortContract sort_Slice hashLess (hashValues leafHash vs')"
  shows "\<exists>tree iv.
           PrepareMerkleTree K sort_Slice zero vs' options leafHash nodeHash = Inr (tree, iv) \<and>
           MakeMerkleTree (map VHexString (sort_key hashValue (map leafHash vs)))
             (case nodeHash of None \<Rightarrow> StandardNodeHash K | Some f \<Rightarrow> f) = Inr tree \<and>
           length tree = 2 * length vs - 1 \<and>
           map Inr (drop (length vs - 1) tree) =
             map ToHex_text (sort_key hashValue (map leafHash vs)) \<and>
           length iv = length vs"
proof -
  let ?S = "sort_Slice hashLess (hashValues leafHash vs')"
  let ?L = "sort_key hashValue (map leafHash vs)"
  let ?H = "case nodeHash of None \<Rightarrow> StandardNodeHash K | Some f \<Rightarrow> f"
  let ?leaves = "map (\<lambda>h. ''0x'' @ TrimPrefix h ''0x'') ?L"
  have SL: "map Hash ?S = ?L" by (rule sorted_hashes[OF hex tie perm c])
  have hs: "map (\<lambda>v. VHexString (Hash v)) ?S = map VHexString ?L"
    unfolding SL[symmetric] by (simp add: comp_def)
  have lenL: "length ?L = length vs" by simp
  with ne have "?L \<noteq> []" by (metis length_0_conv)
  then have neL: "map VHexString ?L \<noteq> []" by simp
  have lenS: "length ?S = length vs" using SL lenL by (metis length_map)
  from perm have lenv: "length vs' = length vs" by (metis size_mset)
  have th: "ToHex_text h = Inr (''0x'' @ TrimPrefix h ''0x'')" if "h \<in> set ?L" for h
  proof -
    from that have "h \<in> leafHash ` set vs" by simp
    with hex obtain t where "ToHex_text h = Inr t" by auto
    with ToHex_text_form[OF this] show ?thesis by simp
  qed
  then have lv: "map ToHex (map VHexString ?L) = map Inr ?leaves" by (simp add: comp_def)
  from MakeMerkleTree_spec[OF neL lv, of ?H] obtain tree where t:
    "MakeMerkleTree (map VHexString ?L) ?H = Inr tree" "length tree = 2 * length vs - 1"
    "drop (length vs - 1) tree = ?leaves"
    by auto
  from c have "mset ?S = mset (hashValues leafHash vs')" by (simp add: sortContract_def)
  then have "set ?S = set (hashValues leafHash vs')" by (metis mset_eq_setD)
  then have ix: "\<forall>hv\<in>set ?S. 0 \<le> ValueIndex hv \<and>
       ValueIndex hv < int (length (replicate (length vs') \<lparr>IValue = zero, TreeIndex = 0\<rparr>))"
    by (auto dest: hashValues_index)
  from ne have n: "1 \<le> length vs" by (cases vs) simp_all
  have a1: "0 \<le> int (length tree) - int (length ?S) + 0" using t(2) lenS n ne by simp
  have a2: "int (length tree) - int (length ?S) + 0 + int (length ?S) \<le> int (length tree)"
    by simp
  from assignIndices_ok[OF ix a1 a2]
  obtain iv where iv: "assignIndices (int (length tree)) (int (length ?S)) ?S 0
       (replicate (length vs') \<lparr>IValue = zero, TreeIndex = 0\<rparr>) = Inr iv"
    "length iv = length vs'"
    by auto
  have "PrepareMerkleTree K sort_Slice zero vs' options leafHash nodeHash = Inr (tree, iv)"
    using srt t(1) iv(1) by (simp add: PrepareMerkleTree_def Let_def hs)
  moreover have "map ToHex_text ?L = map Inr ?leaves"
    unfolding map_map comp_def by (rule map_cong[OF refl]) (rule th)
  then have "map Inr (drop (length vs - 1) tree) = map ToHex_text ?L"
    by (simp only: t(3))
  ultimately show ?thesis using t(1,2) iv(2) lenv by auto
qed

subsection \<open>C5\<close>

text \<open>
  C5, as amended. With \<^verbatim>\<open>SortLeaves\<close> set, when the leaf hashes of the values are hex text
  and leaf hashes of the same \<^verbatim>\<open>Compare\<close> value are the same text, two builds by
  \<^verbatim>\<open>PrepareMerkleTree\<close> over the same multiset of values in two input orders succeed with
  the same tree, hence the same root. The code sorts with \<^verbatim>\<open>sort.Slice\<close>, which is not a
  stable sort; the statement holds for every sort that meets its contract, and the leaves of
  the tree are the hex forms of the leaf hashes in ascending order of their value, an order
  that is unique under the hypothesis and is the one a stable sort gives. Canonical 32-byte
  hashes, which \<^verbatim>\<open>StandardLeafHash\<close> returns, meet the hypothesis
  (\<open>canonical_hash_value_inj\<close>).
\<close>

theorem sorted_leaves_deterministic:
  assumes srt: "SortLeaves options" and ne: "vs1 \<noteq> []" and perm: "mset vs1 = mset vs2"
    and hex: "\<forall>v\<in>set vs1. \<exists>t. ToHex_text (leafHash v) = Inr t"
    and tie: "\<forall>v\<in>set vs1. \<forall>w\<in>set vs1. hashValue (leafHash v) = hashValue (leafHash w) \<longrightarrow>
                leafHash v = leafHash w"
    and c1: "sortContract sort_Slice hashLess (hashValues leafHash vs1)"
    and c2: "sortContract sort_Slice hashLess (hashValues leafHash vs2)"
  shows "\<exists>tree iv1 iv2.
           PrepareMerkleTree K sort_Slice zero vs1 options leafHash nodeHash = Inr (tree, iv1) \<and>
           PrepareMerkleTree K sort_Slice zero vs2 options leafHash nodeHash = Inr (tree, iv2) \<and>
           length tree = 2 * length vs1 - 1 \<and>
           map Inr (drop (length vs1 - 1) tree) =
             map ToHex_text (sort_key hashValue (map leafHash vs1))"
proof -
  from PrepareMerkleTree_sorted[OF srt ne hex tie refl c1, of K zero nodeHash]
  obtain tree iv1 where 1:
    "PrepareMerkleTree K sort_Slice zero vs1 options leafHash nodeHash = Inr (tree, iv1)"
    "MakeMerkleTree (map VHexString (sort_key hashValue (map leafHash vs1)))
       (case nodeHash of None \<Rightarrow> StandardNodeHash K | Some f \<Rightarrow> f) = Inr tree"
    "length tree = 2 * length vs1 - 1"
    "map Inr (drop (length vs1 - 1) tree) = map ToHex_text (sort_key hashValue (map leafHash vs1))"
    by blast
  from PrepareMerkleTree_sorted[OF srt ne hex tie perm[symmetric] c2, of K zero nodeHash]
  obtain tree' iv2 where 2:
    "PrepareMerkleTree K sort_Slice zero vs2 options leafHash nodeHash = Inr (tree', iv2)"
    "MakeMerkleTree (map VHexString (sort_key hashValue (map leafHash vs1)))
       (case nodeHash of None \<Rightarrow> StandardNodeHash K | Some f \<Rightarrow> f) = Inr tree'"
    by blast
  from 1(2) 2(2) have "tree' = tree" by simp
  with 1 2 show ?thesis by blast
qed

theorem sorted_leaves_deterministic_witness:
  "SortLeaves \<lparr>SortLeaves = True\<rparr> \<and>
   mset [VString ''alice'', VString ''bob'', VString ''carol''] =
     mset [VString ''carol'', VString ''alice'', VString ''bob''] \<and>
   isCanonicalHash (StandardLeafHash sampleDigest (VString ''alice'')) \<and>
   isCanonicalHash (StandardLeafHash sampleDigest (VString ''bob'')) \<and>
   isCanonicalHash (StandardLeafHash sampleDigest (VString ''carol'')) \<and>
   (\<exists>tree iv1 iv2.
      PrepareMerkleTree sampleDigest insertionSort VOther
        [VString ''alice'', VString ''bob'', VString ''carol''] \<lparr>SortLeaves = True\<rparr>
        (StandardLeafHash sampleDigest) None = Inr (tree, iv1) \<and>
      PrepareMerkleTree sampleDigest insertionSort VOther
        [VString ''carol'', VString ''alice'', VString ''bob''] \<lparr>SortLeaves = True\<rparr>
        (StandardLeafHash sampleDigest) None = Inr (tree, iv2) \<and>
      length tree = 5)"
proof -
  let ?H = "StandardLeafHash sampleDigest"
  let ?vs1 = "[VString ''alice'', VString ''bob'', VString ''carol'']"
  let ?vs2 = "[VString ''carol'', VString ''alice'', VString ''bob'']"
  have b1: "isCanonicalHash (?H (VString ''alice''))" by code_simp
  have b2: "isCanonicalHash (?H (VString ''bob''))" by code_simp
  have b3: "isCanonicalHash (?H (VString ''carol''))" by code_simp
  from b1 b2 b3 have can: "\<forall>v\<in>set ?vs1. isCanonicalHash (?H v)" by simp
  then have hex: "\<forall>v\<in>set ?vs1. \<exists>t. ToHex_text (?H v) = Inr t"
    by (blast intro: isNodeHex_ToHex_text isCanonicalHash_isNodeHex)
  from can have tie: "\<forall>v\<in>set ?vs1. \<forall>w\<in>set ?vs1. hashValue (?H v) = hashValue (?H w) \<longrightarrow> ?H v = ?H w"
    by (blast intro: canonical_hash_value_inj)
  have perm: "mset ?vs1 = mset ?vs2" by (simp add: add_mset_commute)
  from perm have "set ?vs2 = set ?vs1" by (metis mset_eq_setD)
  with hex have hex2: "\<forall>v\<in>set ?vs2. \<exists>t. ToHex_text (?H v) = Inr t" by blast
  have srt: "SortLeaves \<lparr>SortLeaves = True\<rparr>" by simp
  have ne: "?vs1 \<noteq> []" by simp
  from sorted_leaves_deterministic[OF srt ne perm hex tie insertionSort_hashes[OF hex]
    insertionSort_hashes[OF hex2], of sampleDigest VOther None]
  have "\<exists>tree iv1 iv2.
      PrepareMerkleTree sampleDigest insertionSort VOther ?vs1 \<lparr>SortLeaves = True\<rparr> ?H None =
        Inr (tree, iv1) \<and>
      PrepareMerkleTree sampleDigest insertionSort VOther ?vs2 \<lparr>SortLeaves = True\<rparr> ?H None =
        Inr (tree, iv2) \<and>
      length tree = 5"
    by auto
  with srt perm b1 b2 b3 show ?thesis by blast
qed

text \<open>
  The claim as stated, for every multiset of values, fails when two leaf hashes have the same
  value and different text: \<^verbatim>\<open>0x0a\<close> and \<^verbatim>\<open>0x000a\<close> are both ten for \<^verbatim>\<open>Compare\<close>, neither is
  less than the other, and the sort leaves them in the order of the input. The two builds,
  here with the leaf hash that returns its argument and the insertion sort, place the leaves
  in different orders; \<^verbatim>\<open>StandardNodeHash\<close> hashes the bytes \<^verbatim>\<open>0a 00 0a\<close> in one tree and
  \<^verbatim>\<open>00 0a 0a\<close> in the other, and the roots differ.
\<close>

theorem sorted_leaves_tied_hashes:
  "mset [''0x0a'', ''0x000a''] = mset [''0x000a'', ''0x0a''] \<and>
   hashValue ''0x0a'' = hashValue ''0x000a'' \<and>
   sortContract insertionSort hashLess (hashValues (\<lambda>s. s) [''0x0a'', ''0x000a'']) \<and>
   sortContract insertionSort hashLess (hashValues (\<lambda>s. s) [''0x000a'', ''0x0a'']) \<and>
   PrepareMerkleTree sampleDigest insertionSort '''' [''0x0a'', ''0x000a'']
       \<lparr>SortLeaves = True\<rparr> (\<lambda>s. s) None =
     Inr ([''0x0a000a'' @ replicate 58 CHR ''0'', ''0x0a'', ''0x000a''],
          [\<lparr>IValue = ''0x0a'', TreeIndex = 1\<rparr>, \<lparr>IValue = ''0x000a'', TreeIndex = 2\<rparr>]) \<and>
   PrepareMerkleTree sampleDigest insertionSort '''' [''0x000a'', ''0x0a'']
       \<lparr>SortLeaves = True\<rparr> (\<lambda>s. s) None =
     Inr ([''0x000a0a'' @ replicate 58 CHR ''0'', ''0x000a'', ''0x0a''],
          [\<lparr>IValue = ''0x000a'', TreeIndex = 1\<rparr>, \<lparr>IValue = ''0x0a'', TreeIndex = 2\<rparr>]) \<and>
   Concat (sortPair (VHexString ''0x0a'') (VHexString ''0x000a'')) = Inr [10, 0, 10] \<and>
   Concat (sortPair (VHexString ''0x000a'') (VHexString ''0x0a'')) = Inr [0, 10, 10]"
proof -
  have p: "mset [''0x0a'', ''0x000a''] = mset [''0x000a'', ''0x0a'']"
    by (simp add: add_mset_commute)
  have v: "hashValue ''0x0a'' = hashValue ''0x000a''" by code_simp
  have h1: "ToHex_text ''0x0a'' = Inr ''0x0a''" by code_simp
  have h2: "ToHex_text ''0x000a'' = Inr ''0x000a''" by code_simp
  from h1 h2 have hex: "\<forall>v\<in>set [''0x0a'', ''0x000a'']. \<exists>t. ToHex_text v = Inr t"
    and hex': "\<forall>v\<in>set [''0x000a'', ''0x0a'']. \<exists>t. ToHex_text v = Inr t" by simp_all
  have c1: "sortContract insertionSort hashLess (hashValues (\<lambda>s. s) [''0x0a'', ''0x000a''])"
    by (rule insertionSort_hashes[OF hex])
  have c2: "sortContract insertionSort hashLess (hashValues (\<lambda>s. s) [''0x000a'', ''0x0a''])"
    by (rule insertionSort_hashes[OF hex'])
  have t1: "PrepareMerkleTree sampleDigest insertionSort '''' [''0x0a'', ''0x000a'']
       \<lparr>SortLeaves = True\<rparr> (\<lambda>s. s) None =
     Inr ([''0x0a000a'' @ replicate 58 CHR ''0'', ''0x0a'', ''0x000a''],
          [\<lparr>IValue = ''0x0a'', TreeIndex = 1\<rparr>, \<lparr>IValue = ''0x000a'', TreeIndex = 2\<rparr>])"
    by code_simp
  have t2: "PrepareMerkleTree sampleDigest insertionSort '''' [''0x000a'', ''0x0a'']
       \<lparr>SortLeaves = True\<rparr> (\<lambda>s. s) None =
     Inr ([''0x000a0a'' @ replicate 58 CHR ''0'', ''0x000a'', ''0x0a''],
          [\<lparr>IValue = ''0x000a'', TreeIndex = 1\<rparr>, \<lparr>IValue = ''0x0a'', TreeIndex = 2\<rparr>])"
    by code_simp
  have s1: "Concat (sortPair (VHexString ''0x0a'') (VHexString ''0x000a'')) = Inr [10, 0, 10]"
    by code_simp
  have s2: "Concat (sortPair (VHexString ''0x000a'') (VHexString ''0x0a'')) = Inr [0, 10, 10]"
    by code_simp
  from p v c1 c2 t1 t2 s1 s2 show ?thesis by blast
qed

end
